theory Spec2Isabelle
  imports
    Main
    "HOL-Library.AList"
    "HOL-Library.Sublist"
    "HOL-Library.Char_ord"
    "HOL-Library.List_Lexorder"
begin

section \<open>The Mermaid renderer of pipdeptree\<close>

text \<open>
  A shallow embedding of \<^verbatim>\<open>src/pipdeptree/_render/mermaid.py\<close>. Python strings are
  \<^typ>\<open>string\<close>, compared as Python compares them (character by character, a proper
  prefix first; the order of the bytes of UTF-8 is the order of the code points); the
  counter of the probing loop starts at 0 and only grows, so it is a \<^typ>\<open>nat\<close>; the
  dictionary \<^verbatim>\<open>node_ids_map\<close> is an association list in insertion order;
  the two \<^verbatim>\<open>set[str]\<close> are \<^typ>\<open>string set\<close>; the local state of one call of
  \<^verbatim>\<open>render_mermaid\<close> is a record that every step takes and returns.
\<close>

subsection \<open>Text fragments\<close>

definition NL :: string where
  \<comment> \<open>the line feed, Python's \<^verbatim>\<open>"\n"\<close>\<close>
  "NL = [CHR 0x0A]"

definition BSN :: string where
  \<comment> \<open>backslash followed by n, Python's \<^verbatim>\<open>"\\n"\<close>: Mermaid's line break inside a label\<close>
  "BSN = [CHR 0x5C, CHR ''n'']"

definition DQ :: string where
  \<comment> \<open>the double quote\<close>
  "DQ = [CHR 0x22]"

fun str :: "nat \<Rightarrow> string" where
  \<comment> \<open>Python's \<^verbatim>\<open>str(number)\<close> of a non-negative integer: decimal, no leading zero\<close>
  "str n = (if n < 10 then [char_of (48 + n)] else str (n div 10) @ [char_of (48 + n mod 10)])"

declare str.simps [simp del]

definition dec :: "string \<Rightarrow> nat" where
  \<comment> \<open>reading a decimal numeral; used to show that \<^const>\<open>str\<close> is injective\<close>
  "dec s = foldl (\<lambda>a c. 10 * a + (of_char c - 48)) 0 s"

fun join :: "string \<Rightarrow> string list \<Rightarrow> string" where
  \<comment> \<open>Python's \<^verbatim>\<open>sep.join(xs)\<close>\<close>
  "join sep [] = []"
| "join sep [x] = x"
| "join sep (x # y # ys) = x @ sep @ join sep (y # ys)"

definition py_or :: "string option \<Rightarrow> string \<Rightarrow> string" where
  \<comment> \<open>Python's \<^verbatim>\<open>x or d\<close> for an optional string: \<^verbatim>\<open>None\<close> and \<^verbatim>\<open>""\<close> are falsy\<close>
  "py_or x d = (case x of None \<Rightarrow> d | Some s \<Rightarrow> if s = [] then d else s)"

subsection \<open>The reserved words\<close>

definition RESERVED_IDS :: "string set" where
  "RESERVED_IDS =
    {''C4Component'', ''C4Container'', ''C4Deployment'', ''C4Dynamic'',
     ''_blank'', ''_parent'', ''_self'', ''_top'',
     ''call'', ''class'', ''classDef'', ''click'', ''end'',
     ''flowchart'', ''flowchart-v2'', ''graph'', ''interpolate'',
     ''linkStyle'', ''style'', ''subgraph''}"

subsection \<open>The input graph\<close>

text \<open>
  Modelled from the spec: the classes of \<^verbatim>\<open>pipdeptree._models\<close> are not part of the
  rendered module. The records hold the attributes that \<^verbatim>\<open>render_mermaid\<close> reads:
  of an installed distribution its \<^verbatim>\<open>key\<close>, \<^verbatim>\<open>project_name\<close>, \<^verbatim>\<open>version\<close> and (as a
  dependent in a reversed graph) \<^verbatim>\<open>req.version_spec\<close>; of a requirement its \<^verbatim>\<open>key\<close>,
  \<^verbatim>\<open>project_name\<close>, \<^verbatim>\<open>is_missing\<close>, \<^verbatim>\<open>installed_version\<close> and \<^verbatim>\<open>version_spec\<close>.
  A version specifier is optional. \<^verbatim>\<open>tree.items()\<close> is the list of the graph's
  entries in iteration order; \<^verbatim>\<open>isinstance(tree, ReversedPackageDAG)\<close> is the
  constructor of the graph.
\<close>

record dist_package =
  dp_key :: string
  dp_project_name :: string
  dp_version :: string
  dp_req_version_spec :: "string option"

record req_package =
  rp_key :: string
  rp_project_name :: string
  rp_is_missing :: bool
  rp_installed_version :: string
  rp_version_spec :: "string option"

datatype tree =
  PackageDAG "(dist_package \<times> req_package list) list"
| ReversedPackageDAG "(req_package \<times> dist_package list) list"

subsection \<open>The identifier sanitizer\<close>

type_synonym ids = "(string \<times> string) list"

function probe :: "ids \<Rightarrow> string \<Rightarrow> nat \<Rightarrow> string \<times> ids" where
  \<comment> \<open>the \<^verbatim>\<open>while True\<close> loop of \<^verbatim>\<open>mermaid_id\<close>; \<^verbatim>\<open>new_id not in node_ids_map\<close> tests the keys\<close>
  "probe node_ids_map key number =
     (let new_id = key @ ''_'' @ str number in
      if map_of node_ids_map new_id = None
      then (new_id, AList.update key new_id node_ids_map)
      else probe node_ids_map key (number + 1))"
  by pat_completeness auto

definition mermaid_id :: "string \<Rightarrow> ids \<Rightarrow> string \<times> ids" where
  \<comment> \<open>returns the identifier and the updated \<^verbatim>\<open>node_ids_map\<close>\<close>
  "mermaid_id key node_ids_map =
     (case map_of node_ids_map key of
        Some canonical_id \<Rightarrow> (canonical_id, node_ids_map)
      | None \<Rightarrow>
          if key \<notin> RESERVED_IDS
          then (key, AList.update key key node_ids_map)
          else probe node_ids_map key 0)"

subsection \<open>The node and edge collector\<close>

record state =
  node_ids_map :: ids
  nodes :: "string set"
  edges :: "string set"

definition init_state :: state where
  "init_state = \<lparr>node_ids_map = [], nodes = {}, edges = {}\<rparr>"

definition node_decl :: "string \<Rightarrow> string \<Rightarrow> string" where
  \<comment> \<open>\<^verbatim>\<open>f'{key}["{label}"]'\<close>\<close>
  "node_decl key label = key @ ''['' @ DQ @ label @ DQ @ '']''"

definition missing_node_decl :: "string \<Rightarrow> string \<Rightarrow> string" where
  \<comment> \<open>\<^verbatim>\<open>f'{key}["{label}"]:::missing'\<close>\<close>
  "missing_node_decl key label = key @ ''['' @ DQ @ label @ DQ @ '']:::missing''"

definition solid_edge :: "string \<Rightarrow> string \<Rightarrow> string \<Rightarrow> string" where
  \<comment> \<open>\<^verbatim>\<open>f'{a} -- "{edge_label}" --> {b}'\<close>\<close>
  "solid_edge a edge_label b = a @ '' -- '' @ DQ @ edge_label @ DQ @ '' --> '' @ b"

definition dashed_edge :: "string \<Rightarrow> string \<Rightarrow> string" where
  \<comment> \<open>\<^verbatim>\<open>f"{a} -.-> {b}"\<close>\<close>
  "dashed_edge a b = a @ '' -.-> '' @ b"

definition reverse_dependency_step :: "string \<Rightarrow> dist_package \<Rightarrow> state \<Rightarrow> state" where
  \<comment> \<open>the body of the inner loop of the reversed branch\<close>
  "reverse_dependency_step package_key reverse_dependency s =
     (let edge_label = py_or (dp_req_version_spec reverse_dependency) ''any'';
          (reverse_dependency_key, m) = mermaid_id (dp_key reverse_dependency) (node_ids_map s)
      in s\<lparr>node_ids_map := m,
           edges := insert (solid_edge package_key edge_label reverse_dependency_key) (edges s)\<rparr>)"

definition reverse_entry :: "req_package \<times> dist_package list \<Rightarrow> state \<Rightarrow> state" where
  \<comment> \<open>the body of the outer loop of the reversed branch\<close>
  "reverse_entry entry s =
     (case entry of (package, reverse_dependencies) \<Rightarrow>
        let package_label =
              rp_project_name package @ BSN @
              (if rp_is_missing package then ''(missing)'' else rp_installed_version package);
            (package_key, m) = mermaid_id (rp_key package) (node_ids_map s);
            s1 = s\<lparr>node_ids_map := m,
                    nodes := insert (node_decl package_key package_label) (nodes s)\<rparr>
        in fold (reverse_dependency_step package_key) reverse_dependencies s1)"

definition dependency_step :: "string \<Rightarrow> req_package \<Rightarrow> state \<Rightarrow> state" where
  \<comment> \<open>the body of the inner loop of the forward branch\<close>
  "dependency_step package_key dependency s =
     (let edge_label = py_or (rp_version_spec dependency) ''any'';
          (dependency_key, m) = mermaid_id (rp_key dependency) (node_ids_map s)
      in if rp_is_missing dependency
         then
           (let dependency_label = rp_project_name dependency @ BSN @ ''(missing)''
            in s\<lparr>node_ids_map := m,
                 nodes := insert (missing_node_decl dependency_key dependency_label) (nodes s),
                 edges := insert (dashed_edge package_key dependency_key) (edges s)\<rparr>)
         else
           s\<lparr>node_ids_map := m,
             edges := insert (solid_edge package_key edge_label dependency_key) (edges s)\<rparr>)"

definition forward_entry :: "dist_package \<times> req_package list \<Rightarrow> state \<Rightarrow> state" where
  \<comment> \<open>the body of the outer loop of the forward branch\<close>
  "forward_entry entry s =
     (case entry of (package, dependencies) \<Rightarrow>
        let package_label = dp_project_name package @ BSN @ dp_version package;
            (package_key, m) = mermaid_id (dp_key package) (node_ids_map s);
            s1 = s\<lparr>node_ids_map := m,
                    nodes := insert (node_decl package_key package_label) (nodes s)\<rparr>
        in fold (dependency_step package_key) dependencies s1)"

fun collect :: "tree \<Rightarrow> state" where
  \<comment> \<open>lines 46 to 95: the state when both loops are done\<close>
  "collect (ReversedPackageDAG items) = fold reverse_entry items init_state"
| "collect (PackageDAG items) = fold forward_entry items init_state"

subsection \<open>The emitter\<close>

definition indent :: string where
  "indent = replicate 4 (CHR '' '')"

definition emit :: "string list \<Rightarrow> string list \<Rightarrow> string" where
  \<comment> \<open>lines 98 to 111, from \<^verbatim>\<open>sorted(nodes)\<close> and \<^verbatim>\<open>sorted(edges)\<close>; the first value of
      \<^verbatim>\<open>output\<close> is what \<^verbatim>\<open>dedent\<close> leaves of the literal: the common margin of eight
      blanks is dropped and the last, blank line is emptied\<close>
  "emit sorted_nodes sorted_edges =
     (let output = ''flowchart TD'' @ NL @ indent @ ''classDef missing stroke-dasharray: 5'' @ NL;
          output = output @ indent;
          output = output @ join (NL @ indent) sorted_nodes;
          output = output @ NL @ indent;
          output = output @ join (NL @ indent) sorted_edges;
          output = output @ NL
      in output)"

definition render_mermaid :: "tree \<Rightarrow> string" where
  "render_mermaid tree =
     (let s = collect tree
      in emit (sorted_list_of_set (nodes s)) (sorted_list_of_set (edges s)))"

subsection \<open>The call on an explicit store\<close>

text \<open>
  The same program once more, with the objects of the Python run made explicit. The store
  holds the dictionaries and sets created so far, also those of earlier calls. A call of
  \<^verbatim>\<open>render_mermaid\<close> creates a new dictionary (line 46) and two new sets (lines 68 and
  69); its local names \<^verbatim>\<open>node_ids_map\<close>, \<^verbatim>\<open>nodes\<close> and \<^verbatim>\<open>edges\<close> are references to them (the
  record \<open>frame\<close>), and the closure \<^verbatim>\<open>mermaid_id\<close> and the loops read and write the store
  through these references. The module-level \<^verbatim>\<open>_RESERVED_IDS\<close> is a frozen set and is the
  constant \<^const>\<open>RESERVED_IDS\<close>. The order in which a run iterates a set of strings is
  not fixed by the language (it depends on the hash seed of the process); it is the
  parameter \<open>iteration\<close>, and \<^verbatim>\<open>sorted(nodes)\<close> sorts the list that the iteration gives.
  A call returns the text and the store it leaves behind.
\<close>

datatype obj = Dict ids | Str_set "string set"

record store =
  objects :: "nat \<Rightarrow> obj option"
  next_ref :: nat

record frame =
  ids_ref :: nat
  nodes_ref :: nat
  edges_ref :: nat

definition new_obj :: "obj \<Rightarrow> store \<Rightarrow> nat \<times> store" where
  \<comment> \<open>creates an object and returns the reference to it\<close>
  "new_obj v st =
     (next_ref st, st\<lparr>objects := (objects st)(next_ref st \<mapsto> v), next_ref := Suc (next_ref st)\<rparr>)"

definition dict_of :: "store \<Rightarrow> nat \<Rightarrow> ids" where
  \<comment> \<open>the dictionary behind a reference\<close>
  "dict_of st r = (case objects st r of Some (Dict m) \<Rightarrow> m | _ \<Rightarrow> [])"

definition strs_of :: "store \<Rightarrow> nat \<Rightarrow> string set" where
  \<comment> \<open>the set behind a reference\<close>
  "strs_of st r = (case objects st r of Some (Str_set s) \<Rightarrow> s | _ \<Rightarrow> {})"

definition mermaid_id_st :: "frame \<Rightarrow> string \<Rightarrow> store \<Rightarrow> string \<times> store" where
  \<comment> \<open>\<^verbatim>\<open>mermaid_id\<close> reading and updating the dictionary that \<^verbatim>\<open>node_ids_map\<close> refers to\<close>
  "mermaid_id_st fr key st =
     (let (new_id, m) = mermaid_id key (dict_of st (ids_ref fr))
      in (new_id, st\<lparr>objects := (objects st)(ids_ref fr \<mapsto> Dict m)\<rparr>))"

definition add_st :: "nat \<Rightarrow> string \<Rightarrow> store \<Rightarrow> store" where
  \<comment> \<open>\<^verbatim>\<open>s.add(x)\<close> on the set behind a reference\<close>
  "add_st r x st = st\<lparr>objects := (objects st)(r \<mapsto> Str_set (insert x (strs_of st r)))\<rparr>"

definition reverse_dependency_step_st :: "frame \<Rightarrow> string \<Rightarrow> dist_package \<Rightarrow> store \<Rightarrow> store" where
  "reverse_dependency_step_st fr package_key reverse_dependency st =
     (let edge_label = py_or (dp_req_version_spec reverse_dependency) ''any'';
          (reverse_dependency_key, st) = mermaid_id_st fr (dp_key reverse_dependency) st
      in add_st (edges_ref fr) (solid_edge package_key edge_label reverse_dependency_key) st)"

definition reverse_entry_st :: "frame \<Rightarrow> req_package \<times> dist_package list \<Rightarrow> store \<Rightarrow> store" where
  "reverse_entry_st fr entry st =
     (case entry of (package, reverse_dependencies) \<Rightarrow>
        let package_label =
              rp_project_name package @ BSN @
              (if rp_is_missing package then ''(missing)'' else rp_installed_version package);
            (package_key, st) = mermaid_id_st fr (rp_key package) st;
            st = add_st (nodes_ref fr) (node_decl package_key package_label) st
        in fold (reverse_dependency_step_st fr package_key) reverse_dependencies st)"

definition dependency_step_st :: "frame \<Rightarrow> string \<Rightarrow> req_package \<Rightarrow> store \<Rightarrow> store" where
  "dependency_step_st fr package_key dependency st =
     (let edge_label = py_or (rp_version_spec dependency) ''any'';
          (dependency_key, st) = mermaid_id_st fr (rp_key dependency) st
      in if rp_is_missing dependency
         then
           (let dependency_label = rp_project_name dependency @ BSN @ ''(missing)'';
                st = add_st (nodes_ref fr) (missing_node_decl dependency_key dependency_label) st
            in add_st (edges_ref fr) (dashed_edge package_key dependency_key) st)
         else add_st (edges_ref fr) (solid_edge package_key edge_label dependency_key) st)"

definition forward_entry_st :: "frame \<Rightarrow> dist_package \<times> req_package list \<Rightarrow> store \<Rightarrow> store" where
  "forward_entry_st fr entry st =
     (case entry of (package, dependencies) \<Rightarrow>
        let package_label = dp_project_name package @ BSN @ dp_version package;
            (package_key, st) = mermaid_id_st fr (dp_key package) st;
            st = add_st (nodes_ref fr) (node_decl package_key package_label) st
        in fold (dependency_step_st fr package_key) dependencies st)"

definition render_mermaid_st ::
    "(string set \<Rightarrow> string list) \<Rightarrow> tree \<Rightarrow> store \<Rightarrow> string \<times> store" where
  \<comment> \<open>one call of \<^verbatim>\<open>render_mermaid\<close> on a store\<close>
  "render_mermaid_st iteration tree st =
     (let (r1, st) = new_obj (Dict []) st;
          (r2, st) = new_obj (Str_set {}) st;
          (r3, st) = new_obj (Str_set {}) st;
          fr = \<lparr>ids_ref = r1, nodes_ref = r2, edges_ref = r3\<rparr>;
          st = (case tree of
                  ReversedPackageDAG items \<Rightarrow> fold (reverse_entry_st fr) items st
                | PackageDAG items \<Rightarrow> fold (forward_entry_st fr) items st);
          output = emit (sort (iteration (strs_of st r2))) (sort (iteration (strs_of st r3)))
      in (output, st))"

subsection \<open>Notions used in the statements\<close>

text \<open>
  The definitions below are not part of the program; the lemmas and theorems are stated
  with them.
\<close>

definition assign :: "string list \<Rightarrow> ids \<Rightarrow> ids" where
  \<comment> \<open>\<^verbatim>\<open>node_ids_map\<close> after \<^verbatim>\<open>mermaid_id\<close> was called on the keys \<open>ks\<close>, in this order\<close>
  "assign ks m = fold (\<lambda>k m. snd (mermaid_id k m)) ks m"

definition lookup :: "ids \<Rightarrow> string \<Rightarrow> string" where
  \<comment> \<open>what \<^verbatim>\<open>mermaid_id\<close> returns for a key, given the map\<close>
  "lookup m k = fst (mermaid_id k m)"

fun key_sequence :: "tree \<Rightarrow> string list" where
  \<comment> \<open>the keys passed to \<^verbatim>\<open>mermaid_id\<close> during one render, in the order of the calls\<close>
  "key_sequence (ReversedPackageDAG items) = concat (map (\<lambda>e. rp_key (fst e) # map dp_key (snd e)) items)"
| "key_sequence (PackageDAG items) = concat (map (\<lambda>e. dp_key (fst e) # map rp_key (snd e)) items)"

definition node_id :: "tree \<Rightarrow> string \<Rightarrow> string" where
  \<comment> \<open>the identifier of a key in the render of a graph: what \<^verbatim>\<open>mermaid_id\<close> returns for it
      with the map that the render ends with\<close>
  "node_id t k = fst (mermaid_id k (node_ids_map (collect t)))"

definition dependency_nodes :: "(string \<Rightarrow> string) \<Rightarrow> req_package \<Rightarrow> string set" where
  \<comment> \<open>the node declarations that one forward-mode dependency adds, \<open>g\<close> giving the identifiers\<close>
  "dependency_nodes g d =
     (if rp_is_missing d
      then {missing_node_decl (g (rp_key d)) (rp_project_name d @ BSN @ ''(missing)'')}
      else {})"

definition dependency_edge :: "(string \<Rightarrow> string) \<Rightarrow> string \<Rightarrow> req_package \<Rightarrow> string" where
  \<comment> \<open>the edge that one forward-mode dependency of the package with identifier \<open>a\<close> adds\<close>
  "dependency_edge g a d =
     (if rp_is_missing d
      then dashed_edge a (g (rp_key d))
      else solid_edge a (py_or (rp_version_spec d) ''any'') (g (rp_key d)))"

definition reverse_dependency_edge :: "(string \<Rightarrow> string) \<Rightarrow> string \<Rightarrow> dist_package \<Rightarrow> string" where
  \<comment> \<open>the edge that one reverse-mode dependent adds\<close>
  "reverse_dependency_edge g a d = solid_edge a (py_or (dp_req_version_spec d) ''any'') (g (dp_key d))"

definition reverse_label :: "req_package \<Rightarrow> string" where
  \<comment> \<open>the label of a top-level package in reverse mode\<close>
  "reverse_label p =
     rp_project_name p @ BSN @ (if rp_is_missing p then ''(missing)'' else rp_installed_version p)"

definition canon :: "string \<Rightarrow> string" where
  \<comment> \<open>the identifier of a key when no suffixed candidate is taken\<close>
  "canon k = (if k \<in> RESERVED_IDS then k @ ''_0'' else k)"

fun canon_nodes :: "tree \<Rightarrow> string set" where
  \<comment> \<open>the node declarations of a graph under the identifiers \<^const>\<open>canon\<close>\<close>
  "canon_nodes (PackageDAG g) =
     (\<Union>e\<in>set g. insert (node_decl (canon (dp_key (fst e)))
                            (dp_project_name (fst e) @ BSN @ dp_version (fst e)))
                    (\<Union>d\<in>set (snd e). dependency_nodes canon d))"
| "canon_nodes (ReversedPackageDAG g) =
     (\<lambda>e. node_decl (canon (rp_key (fst e))) (reverse_label (fst e))) ` set g"

fun canon_edges :: "tree \<Rightarrow> string set" where
  \<comment> \<open>the edge declarations of a graph under the identifiers \<^const>\<open>canon\<close>\<close>
  "canon_edges (PackageDAG g) =
     (\<Union>e\<in>set g. (\<lambda>d. dependency_edge canon (canon (dp_key (fst e))) d) ` set (snd e))"
| "canon_edges (ReversedPackageDAG g) =
     (\<Union>e\<in>set g. (\<lambda>d. reverse_dependency_edge canon (canon (rp_key (fst e))) d) ` set (snd e))"

definition no_suffix_clash :: "tree \<Rightarrow> bool" where
  \<comment> \<open>no key met in the graph is a reserved word whose first candidate is also a key met\<close>
  "no_suffix_clash t =
     (\<forall>k\<in>set (key_sequence t). k \<in> RESERVED_IDS \<longrightarrow> k @ ''_0'' \<notin> set (key_sequence t))"

fun same_entries :: "tree \<Rightarrow> tree \<Rightarrow> bool" where
  \<comment> \<open>two graphs of one mode with the same set of entries\<close>
  "same_entries (PackageDAG g) (PackageDAG g') = (set g = set g')"
| "same_entries (ReversedPackageDAG g) (ReversedPackageDAG g') = (set g = set g')"
| "same_entries _ _ = False"

definition unlines :: "string list \<Rightarrow> string" where
  \<comment> \<open>a text from its lines, each ended by a line feed\<close>
  "unlines ls = concat (map (\<lambda>l. l @ NL) ls)"

definition block :: "string list \<Rightarrow> string list" where
  \<comment> \<open>the lines that the emitter writes for a sorted list of declarations\<close>
  "block ds = (if ds = [] then [indent] else map ((@) indent) ds)"

definition claimed_layout :: "string list \<Rightarrow> string list \<Rightarrow> string" where
  \<comment> \<open>the layout in the words of the specification: header, \<^verbatim>\<open>classDef\<close>, the node
      declarations and the edge declarations, one per line, each indented\<close>
  "claimed_layout ns es =
     unlines ([''flowchart TD'', indent @ ''classDef missing stroke-dasharray: 5'']
              @ map ((@) indent) ns @ map ((@) indent) es)"

definition node_lines :: "tree \<Rightarrow> string list" where
  \<comment> \<open>\<^verbatim>\<open>sorted(nodes)\<close> at the end of the render\<close>
  "node_lines t = sorted_list_of_set (nodes (collect t))"

definition edge_lines :: "tree \<Rightarrow> string list" where
  \<comment> \<open>\<^verbatim>\<open>sorted(edges)\<close> at the end of the render\<close>
  "edge_lines t = sorted_list_of_set (edges (collect t))"

definition declares :: "string \<Rightarrow> string \<Rightarrow> bool" where
  \<comment> \<open>the text has the declaration \<open>d\<close>: after a line feed, the indentation, \<open>d\<close> and a
      line feed\<close>
  "declares output d = sublist (NL @ indent @ d @ NL) output"

definition is_digit :: "char \<Rightarrow> bool" where
  "is_digit c = (48 \<le> (of_char c :: nat) \<and> (of_char c :: nat) \<le> 57)"



definition view :: "frame \<Rightarrow> store \<Rightarrow> state" where
  \<comment> \<open>the three objects of a call, as the state of the model without store\<close>
  "view fr st = \<lparr>node_ids_map = dict_of st (ids_ref fr), nodes = strs_of st (nodes_ref fr),
                 edges = strs_of st (edges_ref fr)\<rparr>"

definition separate :: "frame \<Rightarrow> bool" where
  \<comment> \<open>the three references of a frame are distinct\<close>
  "separate fr = (ids_ref fr \<noteq> nodes_ref fr \<and> ids_ref fr \<noteq> edges_ref fr \<and> nodes_ref fr \<noteq> edges_ref fr)"

subsection \<open>Example graphs\<close>

definition ascending :: "string set \<Rightarrow> string list" where
  \<comment> \<open>one possible iteration order of a set\<close>
  "ascending S = sorted_list_of_set S"

definition descending :: "string set \<Rightarrow> string list" where
  \<comment> \<open>another iteration order\<close>
  "descending S = rev (sorted_list_of_set S)"

definition used_store :: store where
  \<comment> \<open>a store that earlier calls have left objects in\<close>
  "used_store = \<lparr>objects = (\<lambda>r. None)(0 \<mapsto> Dict [(''a'', ''stale''), (''class'', ''class_7'')],
                                        1 \<mapsto> Str_set {''stale''}),
                 next_ref = 2\<rparr>"

definition pkg_a :: dist_package where
  "pkg_a = \<lparr>dp_key = ''a'', dp_project_name = ''A'', dp_version = ''1.0'', dp_req_version_spec = None\<rparr>"

definition pkg_A :: dist_package where
  "pkg_A = \<lparr>dp_key = ''A'', dp_project_name = ''A'', dp_version = ''1.0'',
            dp_req_version_spec = None\<rparr>"

definition pkg_class :: dist_package where
  "pkg_class = \<lparr>dp_key = ''class'', dp_project_name = ''class'', dp_version = ''1.0'',
                dp_req_version_spec = None\<rparr>"

definition pkg_class_0 :: dist_package where
  "pkg_class_0 = \<lparr>dp_key = ''class_0'', dp_project_name = ''class_0'', dp_version = ''2.0'',
                  dp_req_version_spec = None\<rparr>"

definition pkg_end :: dist_package where
  "pkg_end = \<lparr>dp_key = ''end'', dp_project_name = ''end'', dp_version = ''0.1'',
              dp_req_version_spec = None\<rparr>"

definition pkg_end_0 :: dist_package where
  "pkg_end_0 = \<lparr>dp_key = ''end_0'', dp_project_name = ''end-0'', dp_version = ''0.2'',
                dp_req_version_spec = None\<rparr>"

definition dist_z :: dist_package where
  "dist_z = \<lparr>dp_key = ''z'', dp_project_name = ''Z'', dp_version = ''0.4'',
             dp_req_version_spec = Some []\<rparr>"

definition dep_b :: req_package where
  "dep_b = \<lparr>rp_key = ''b'', rp_project_name = ''B'', rp_is_missing = False,
            rp_installed_version = ''2.0'', rp_version_spec = None\<rparr>"

definition dep_B :: req_package where
  "dep_B = \<lparr>rp_key = ''B'', rp_project_name = ''B'', rp_is_missing = False,
            rp_installed_version = ''2.0'', rp_version_spec = None\<rparr>"

definition dep_c :: req_package where
  "dep_c = \<lparr>rp_key = ''c'', rp_project_name = ''C'', rp_is_missing = True,
            rp_installed_version = [], rp_version_spec = Some ''>=1.0''\<rparr>"

definition dep_m :: req_package where
  "dep_m = \<lparr>rp_key = ''m'', rp_project_name = ''M'', rp_is_missing = True,
            rp_installed_version = [], rp_version_spec = None\<rparr>"

definition req_x :: req_package where
  "req_x = \<lparr>rp_key = ''x'', rp_project_name = ''X'', rp_is_missing = True,
            rp_installed_version = [], rp_version_spec = Some ''>=1.0''\<rparr>"

definition req_y :: req_package where
  "req_y = \<lparr>rp_key = ''y'', rp_project_name = ''Y'', rp_is_missing = False,
            rp_installed_version = ''3.1'', rp_version_spec = Some ''>=3''\<rparr>"

section \<open>The probing loop terminates\<close>

lemma dec_str: "dec (str n) = n"
proof (induction n rule: str.induct)
  case (1 n)
  show ?case
  proof (cases "n < 10")
    case True
    then show ?thesis by (subst str.simps) (simp add: dec_def)
  next
    case False
    with 1 have "dec (str (n div 10)) = n div 10" by simp
    with False show ?thesis
      by (subst str.simps) (simp add: dec_def)
  qed
qed

lemma str_inj: "str a = str b \<Longrightarrow> a = b"
  by (metis dec_str)

lemma probe_measure_decreases:
  "map_of m (key @ ''_'' @ str n) \<noteq> None \<Longrightarrow>
   card {k \<in> fst ` set m. \<exists>j\<ge>Suc n. k = key @ ''_'' @ str j}
   < card {k \<in> fst ` set m. \<exists>j\<ge>n. k = key @ ''_'' @ str j}"
proof (rule psubset_card_mono)
  assume a: "map_of m (key @ ''_'' @ str n) \<noteq> None"
  show "finite {k \<in> fst ` set m. \<exists>j\<ge>n. k = key @ ''_'' @ str j}" by simp
  have in1: "key @ ''_'' @ str n \<in> fst ` set m"
    using a by (simp add: map_of_eq_None_iff)
  have "key @ ''_'' @ str n \<in> {k \<in> fst ` set m. \<exists>j\<ge>n. k = key @ ''_'' @ str j}"
    using in1 by blast
  moreover have "key @ ''_'' @ str n \<notin> {k \<in> fst ` set m. \<exists>j\<ge>Suc n. k = key @ ''_'' @ str j}"
    using str_inj by fastforce
  moreover have "{k \<in> fst ` set m. \<exists>j\<ge>Suc n. k = key @ ''_'' @ str j}
      \<subseteq> {k \<in> fst ` set m. \<exists>j\<ge>n. k = key @ ''_'' @ str j}"
    using Suc_leD by blast
  ultimately show "{k \<in> fst ` set m. \<exists>j\<ge>Suc n. k = key @ ''_'' @ str j}
      \<subset> {k \<in> fst ` set m. \<exists>j\<ge>n. k = key @ ''_'' @ str j}" by blast
qed

termination probe
  by (relation "measure (\<lambda>(m, key, n). card {k \<in> fst ` set m. \<exists>j\<ge>n. k = key @ ''_'' @ str j})")
     (auto intro!: probe_measure_decreases [simplified])

declare probe.simps [simp del]

section \<open>Lemmas\<close>

subsection \<open>One call of the sanitizer\<close>

text \<open>
  The loop returns the first free candidate; a call of \<^verbatim>\<open>mermaid_id\<close> maps its key to
  what it returns and changes no other entry, so a later map gives the same answer.
\<close>

lemma probe_result:
  "\<exists>j\<ge>n. probe m key n = (key @ ''_'' @ str j, AList.update key (key @ ''_'' @ str j) m)
        \<and> map_of m (key @ ''_'' @ str j) = None"
proof (induction m key n rule: probe.induct)
  case (1 m key n)
  show ?case
  proof (cases "map_of m (key @ ''_'' @ str n) = None")
    case True
    then have "probe m key n = (key @ ''_'' @ str n, AList.update key (key @ ''_'' @ str n) m)"
      by (subst probe.simps) (simp add: Let_def)
    with True show ?thesis by blast
  next
    case False
    then have eq: "probe m key n = probe m key (n + 1)"
      by (subst probe.simps) (auto simp: Let_def)
    from False 1 obtain j where "j \<ge> n + 1"
      "probe m key (n + 1) = (key @ ''_'' @ str j, AList.update key (key @ ''_'' @ str j) m)"
      "map_of m (key @ ''_'' @ str j) = None"
      by auto
    with eq show ?thesis by (metis add_leD1)
  qed
qed

lemma mermaid_id_memo: "map_of m k = Some c \<Longrightarrow> mermaid_id k m = (c, m)"
  by (simp add: mermaid_id_def)

lemma mermaid_id_map:
  "map_of (snd (mermaid_id k m)) = (map_of m)(k \<mapsto> fst (mermaid_id k m))"
proof (cases "map_of m k")
  case (Some c)
  then show ?thesis by (auto simp: mermaid_id_memo)
next
  case None
  show ?thesis
  proof (cases "k \<in> RESERVED_IDS")
    case False
    with None show ?thesis by (simp add: mermaid_id_def update_conv')
  next
    case True
    obtain j where "probe m k 0 = (k @ ''_'' @ str j, AList.update k (k @ ''_'' @ str j) m)"
      using probe_result [of 0 m k] by blast
    with None True show ?thesis by (simp add: mermaid_id_def update_conv')
  qed
qed

lemma mermaid_id_le: "map_of m \<subseteq>\<^sub>m map_of (snd (mermaid_id k m))"
proof (cases "map_of m k")
  case (Some c)
  then show ?thesis by (simp add: mermaid_id_memo)
next
  case None
  then show ?thesis by (auto simp: mermaid_id_map map_le_def)
qed

lemma lookup_stable:
  assumes "map_of (snd (mermaid_id k m)) \<subseteq>\<^sub>m map_of M"
  shows "lookup M k = fst (mermaid_id k m)"
proof -
  have "map_of (snd (mermaid_id k m)) k = Some (fst (mermaid_id k m))"
    by (simp add: mermaid_id_map)
  with assms have "map_of M k = Some (fst (mermaid_id k m))"
    by (metis domI map_le_def)
  then show ?thesis by (simp add: lookup_def mermaid_id_memo)
qed

lemma assign_Nil [simp]: "assign [] m = m"
  by (simp add: assign_def)

lemma assign_Cons [simp]: "assign (k # ks) m = assign ks (snd (mermaid_id k m))"
  by (simp add: assign_def)

lemma assign_append [simp]: "assign (ks @ ks') m = assign ks' (assign ks m)"
  by (simp add: assign_def)

lemma assign_le: "map_of m \<subseteq>\<^sub>m map_of (assign ks m)"
proof (induction ks arbitrary: m)
  case Nil
  show ?case by simp
next
  case (Cons k ks)
  show ?case using mermaid_id_le Cons.IH map_le_trans by (metis assign_Cons)
qed

lemma dom_assign: "dom (map_of (assign ks m)) = dom (map_of m) \<union> set ks"
  by (induction ks arbitrary: m) (auto simp: mermaid_id_map)

subsection \<open>The collected state\<close>

text \<open>
  Both loops are folds of a step over a list. When every step calls \<^verbatim>\<open>mermaid_id\<close> on
  its keys in order, and adds declarations that can be read off any later map, the fold
  does the same for the list. This gives the identifier map and the two sets at the end
  of a render in terms of \<^const>\<open>node_id\<close>.
\<close>

lemma fold_collect_ids:
  fixes f :: "'a \<Rightarrow> state \<Rightarrow> state"
  assumes ids: "\<And>x s. node_ids_map (f x s) = assign (keys x) (node_ids_map s)"
  shows "node_ids_map (fold f xs s) = assign (concat (map keys xs)) (node_ids_map s)"
  by (induction xs arbitrary: s) (simp_all add: ids)

lemma fold_collect_sets:
  fixes f :: "'a \<Rightarrow> state \<Rightarrow> state"
  assumes ids: "\<And>x s. node_ids_map (f x s) = assign (keys x) (node_ids_map s)"
    and sets: "\<And>x s M. map_of (node_ids_map (f x s)) \<subseteq>\<^sub>m map_of M \<Longrightarrow>
        nodes (f x s) = nodes s \<union> N (lookup M) x \<and> edges (f x s) = edges s \<union> E (lookup M) x"
    and le: "map_of (node_ids_map (fold f xs s)) \<subseteq>\<^sub>m map_of M"
  shows "nodes (fold f xs s) = nodes s \<union> (\<Union>x\<in>set xs. N (lookup M) x)
       \<and> edges (fold f xs s) = edges s \<union> (\<Union>x\<in>set xs. E (lookup M) x)"
  using le
proof (induction xs arbitrary: s)
  case Nil
  show ?case by simp
next
  case (Cons x xs)
  have "node_ids_map (fold f xs (f x s)) = assign (concat (map keys xs)) (node_ids_map (f x s))"
    by (rule fold_collect_ids [OF ids])
  then have "map_of (node_ids_map (f x s)) \<subseteq>\<^sub>m map_of (node_ids_map (fold f xs (f x s)))"
    by (simp add: assign_le)
  with Cons.prems have "map_of (node_ids_map (f x s)) \<subseteq>\<^sub>m map_of M"
    using map_le_trans by fastforce
  then have x: "nodes (f x s) = nodes s \<union> N (lookup M) x \<and> edges (f x s) = edges s \<union> E (lookup M) x"
    by (rule sets)
  from Cons.prems have "map_of (node_ids_map (fold f xs (f x s))) \<subseteq>\<^sub>m map_of M" by simp
  then have "nodes (fold f xs (f x s)) = nodes (f x s) \<union> (\<Union>x\<in>set xs. N (lookup M) x)
       \<and> edges (fold f xs (f x s)) = edges (f x s) \<union> (\<Union>x\<in>set xs. E (lookup M) x)"
    by (rule Cons.IH)
  with x show ?case by auto
qed

lemma dependency_step_ids:
  "node_ids_map (dependency_step a d s) = assign [rp_key d] (node_ids_map s)"
  by (simp add: dependency_step_def Let_def split_beta)

lemma dependency_step_sets:
  assumes "map_of (node_ids_map (dependency_step a d s)) \<subseteq>\<^sub>m map_of M"
  shows "nodes (dependency_step a d s) = nodes s \<union> dependency_nodes (lookup M) d
       \<and> edges (dependency_step a d s) = edges s \<union> {dependency_edge (lookup M) a d}"
proof -
  from assms have "map_of (snd (mermaid_id (rp_key d) (node_ids_map s))) \<subseteq>\<^sub>m map_of M"
    by (simp add: dependency_step_ids)
  then have "lookup M (rp_key d) = fst (mermaid_id (rp_key d) (node_ids_map s))"
    by (rule lookup_stable)
  then show ?thesis
    by (simp add: dependency_step_def dependency_nodes_def dependency_edge_def Let_def split_beta)
qed

lemma forward_entry_ids:
  "node_ids_map (forward_entry e s) = assign (dp_key (fst e) # map rp_key (snd e)) (node_ids_map s)"
proof -
  have "concat (map (\<lambda>d. [rp_key d]) ds) = map rp_key ds" for ds :: "req_package list"
    by (induction ds) simp_all
  then show ?thesis
    by (simp add: forward_entry_def Let_def split_beta
          fold_collect_ids [where keys = "\<lambda>d. [rp_key d]", OF dependency_step_ids])
qed

lemma forward_entry_sets:
  assumes "map_of (node_ids_map (forward_entry e s)) \<subseteq>\<^sub>m map_of M"
  shows "nodes (forward_entry e s) =
           nodes s \<union> (insert (node_decl (lookup M (dp_key (fst e)))
                                (dp_project_name (fst e) @ BSN @ dp_version (fst e)))
                        (\<Union>d\<in>set (snd e). dependency_nodes (lookup M) d))
       \<and> edges (forward_entry e s) =
           edges s \<union> (\<lambda>d. dependency_edge (lookup M) (lookup M (dp_key (fst e))) d) ` set (snd e)"
proof -
  define a where "a = fst (mermaid_id (dp_key (fst e)) (node_ids_map s))"
  define s1 where "s1 = s\<lparr>node_ids_map := snd (mermaid_id (dp_key (fst e)) (node_ids_map s)),
      nodes := insert (node_decl a (dp_project_name (fst e) @ BSN @ dp_version (fst e))) (nodes s)\<rparr>"
  have fe: "forward_entry e s = fold (dependency_step a) (snd e) s1"
    by (simp add: forward_entry_def Let_def split_beta a_def s1_def)
  have "node_ids_map (fold (dependency_step a) (snd e) s1)
      = assign (concat (map (\<lambda>d. [rp_key d]) (snd e))) (node_ids_map s1)"
    by (rule fold_collect_ids [OF dependency_step_ids])
  then have "map_of (node_ids_map s1) \<subseteq>\<^sub>m map_of (node_ids_map (forward_entry e s))"
    by (simp add: fe assign_le)
  with assms have "map_of (node_ids_map s1) \<subseteq>\<^sub>m map_of M"
    using map_le_trans by blast
  then have "lookup M (dp_key (fst e)) = a"
    unfolding a_def s1_def by (simp add: lookup_stable)
  moreover have "nodes (fold (dependency_step a) (snd e) s1)
        = nodes s1 \<union> (\<Union>d\<in>set (snd e). dependency_nodes (lookup M) d)
      \<and> edges (fold (dependency_step a) (snd e) s1)
        = edges s1 \<union> (\<Union>d\<in>set (snd e). {dependency_edge (lookup M) a d})"
  proof (rule fold_collect_sets [where f = "dependency_step a" and keys = "\<lambda>d. [rp_key d]"
        and N = "\<lambda>g d. dependency_nodes g d" and E = "\<lambda>g d. {dependency_edge g a d}"])
    show "node_ids_map (dependency_step a x s) = assign [rp_key x] (node_ids_map s)" for x s
      by (rule dependency_step_ids)
    show "map_of (node_ids_map (dependency_step a x s)) \<subseteq>\<^sub>m map_of M \<Longrightarrow>
        nodes (dependency_step a x s) = nodes s \<union> dependency_nodes (lookup M) x \<and>
        edges (dependency_step a x s) = edges s \<union> {dependency_edge (lookup M) a x}" for x s M
      by (rule dependency_step_sets)
    show "map_of (node_ids_map (fold (dependency_step a) (snd e) s1)) \<subseteq>\<^sub>m map_of M"
      using assms by (simp add: fe)
  qed
  ultimately show ?thesis
    by (auto simp: fe s1_def)
qed

lemma reverse_dependency_step_ids:
  "node_ids_map (reverse_dependency_step a d s) = assign [dp_key d] (node_ids_map s)"
  by (simp add: reverse_dependency_step_def Let_def split_beta)

lemma reverse_dependency_step_sets:
  assumes "map_of (node_ids_map (reverse_dependency_step a d s)) \<subseteq>\<^sub>m map_of M"
  shows "nodes (reverse_dependency_step a d s) = nodes s \<union> {}
       \<and> edges (reverse_dependency_step a d s) = edges s \<union> {reverse_dependency_edge (lookup M) a d}"
proof -
  from assms have "map_of (snd (mermaid_id (dp_key d) (node_ids_map s))) \<subseteq>\<^sub>m map_of M"
    by (simp add: reverse_dependency_step_ids)
  then have "lookup M (dp_key d) = fst (mermaid_id (dp_key d) (node_ids_map s))"
    by (rule lookup_stable)
  then show ?thesis
    by (simp add: reverse_dependency_step_def reverse_dependency_edge_def Let_def split_beta)
qed

lemma reverse_entry_ids:
  "node_ids_map (reverse_entry e s) = assign (rp_key (fst e) # map dp_key (snd e)) (node_ids_map s)"
proof -
  have "concat (map (\<lambda>d. [dp_key d]) ds) = map dp_key ds" for ds :: "dist_package list"
    by (induction ds) simp_all
  then show ?thesis
    by (simp add: reverse_entry_def Let_def split_beta
          fold_collect_ids [where keys = "\<lambda>d. [dp_key d]", OF reverse_dependency_step_ids])
qed

lemma reverse_entry_sets:
  assumes "map_of (node_ids_map (reverse_entry e s)) \<subseteq>\<^sub>m map_of M"
  shows "nodes (reverse_entry e s) =
           nodes s \<union> {node_decl (lookup M (rp_key (fst e))) (reverse_label (fst e))}
       \<and> edges (reverse_entry e s) =
           edges s \<union> (\<lambda>d. reverse_dependency_edge (lookup M) (lookup M (rp_key (fst e))) d) ` set (snd e)"
proof -
  define a where "a = fst (mermaid_id (rp_key (fst e)) (node_ids_map s))"
  define s1 where "s1 = s\<lparr>node_ids_map := snd (mermaid_id (rp_key (fst e)) (node_ids_map s)),
      nodes := insert (node_decl a (reverse_label (fst e))) (nodes s)\<rparr>"
  have fe: "reverse_entry e s = fold (reverse_dependency_step a) (snd e) s1"
    by (simp add: reverse_entry_def reverse_label_def Let_def split_beta a_def s1_def)
  have "node_ids_map (fold (reverse_dependency_step a) (snd e) s1)
      = assign (concat (map (\<lambda>d. [dp_key d]) (snd e))) (node_ids_map s1)"
    by (rule fold_collect_ids [OF reverse_dependency_step_ids])
  then have "map_of (node_ids_map s1) \<subseteq>\<^sub>m map_of (node_ids_map (reverse_entry e s))"
    by (simp add: fe assign_le)
  with assms have "map_of (node_ids_map s1) \<subseteq>\<^sub>m map_of M"
    using map_le_trans by blast
  then have "lookup M (rp_key (fst e)) = a"
    unfolding a_def s1_def by (simp add: lookup_stable)
  moreover have "nodes (fold (reverse_dependency_step a) (snd e) s1)
        = nodes s1 \<union> (\<Union>d\<in>set (snd e). {})
      \<and> edges (fold (reverse_dependency_step a) (snd e) s1)
        = edges s1 \<union> (\<Union>d\<in>set (snd e). {reverse_dependency_edge (lookup M) a d})"
  proof (rule fold_collect_sets [where f = "reverse_dependency_step a" and keys = "\<lambda>d. [dp_key d]"
        and N = "\<lambda>g d. {}" and E = "\<lambda>g d. {reverse_dependency_edge g a d}"])
    show "node_ids_map (reverse_dependency_step a x s) = assign [dp_key x] (node_ids_map s)" for x s
      by (rule reverse_dependency_step_ids)
    show "map_of (node_ids_map (reverse_dependency_step a x s)) \<subseteq>\<^sub>m map_of M \<Longrightarrow>
        nodes (reverse_dependency_step a x s) = nodes s \<union> {} \<and>
        edges (reverse_dependency_step a x s) = edges s \<union> {reverse_dependency_edge (lookup M) a x}" for x s M
      by (rule reverse_dependency_step_sets)
    show "map_of (node_ids_map (fold (reverse_dependency_step a) (snd e) s1)) \<subseteq>\<^sub>m map_of M"
      using assms by (simp add: fe)
  qed
  ultimately show ?thesis
    by (auto simp: fe s1_def)
qed

lemma lookup_node_id: "lookup (node_ids_map (collect t)) = node_id t"
  by (rule ext) (simp add: lookup_def node_id_def)

lemma collect_ids: "node_ids_map (collect t) = assign (key_sequence t) []"
proof (cases t)
  case (PackageDAG g)
  then show ?thesis
    by (simp add: init_state_def
        fold_collect_ids [where keys = "\<lambda>e. dp_key (fst e) # map rp_key (snd e)", OF forward_entry_ids])
next
  case (ReversedPackageDAG g)
  then show ?thesis
    by (simp add: init_state_def
        fold_collect_ids [where keys = "\<lambda>e. rp_key (fst e) # map dp_key (snd e)", OF reverse_entry_ids])
qed

lemma collect_forward:
  fixes g defines "t \<equiv> PackageDAG g"
  shows "nodes (collect t) =
      (\<Union>e\<in>set g. insert (node_decl (node_id t (dp_key (fst e)))
                            (dp_project_name (fst e) @ BSN @ dp_version (fst e)))
                    (\<Union>d\<in>set (snd e). dependency_nodes (node_id t) d))"
    and "edges (collect t) =
      (\<Union>e\<in>set g. (\<lambda>d. dependency_edge (node_id t) (node_id t (dp_key (fst e))) d) ` set (snd e))"
proof -
  have c: "collect t = fold forward_entry g init_state"
    by (simp add: t_def)
  have i: "nodes init_state = {}" "edges init_state = {}"
    by (simp_all add: init_state_def)
  have "nodes (collect t) = nodes init_state \<union>
      (\<Union>e\<in>set g. insert (node_decl (lookup (node_ids_map (collect t)) (dp_key (fst e)))
                            (dp_project_name (fst e) @ BSN @ dp_version (fst e)))
                    (\<Union>d\<in>set (snd e). dependency_nodes (lookup (node_ids_map (collect t))) d))
    \<and> edges (collect t) = edges init_state \<union>
      (\<Union>e\<in>set g. (\<lambda>d. dependency_edge (lookup (node_ids_map (collect t)))
                          (lookup (node_ids_map (collect t)) (dp_key (fst e))) d) ` set (snd e))"
    unfolding c
  proof (rule fold_collect_sets [where f = forward_entry
        and keys = "\<lambda>e. dp_key (fst e) # map rp_key (snd e)"
        and N = "\<lambda>h e. insert (node_decl (h (dp_key (fst e)))
                            (dp_project_name (fst e) @ BSN @ dp_version (fst e)))
                    (\<Union>d\<in>set (snd e). dependency_nodes h d)"
        and E = "\<lambda>h e. (\<lambda>d. dependency_edge h (h (dp_key (fst e))) d) ` set (snd e)"])
    show "node_ids_map (forward_entry x s) = assign (dp_key (fst x) # map rp_key (snd x)) (node_ids_map s)" for x s
      by (rule forward_entry_ids)
    show "map_of (node_ids_map (forward_entry x s)) \<subseteq>\<^sub>m map_of M \<Longrightarrow>
       nodes (forward_entry x s) = nodes s \<union> insert (node_decl (lookup M (dp_key (fst x)))
                            (dp_project_name (fst x) @ BSN @ dp_version (fst x)))
                    (\<Union>d\<in>set (snd x). dependency_nodes (lookup M) d) \<and>
       edges (forward_entry x s) = edges s \<union> (\<lambda>d. dependency_edge (lookup M) (lookup M (dp_key (fst x))) d) ` set (snd x)" for x s M
      by (rule forward_entry_sets)
    show "map_of (node_ids_map (fold forward_entry g init_state))
        \<subseteq>\<^sub>m map_of (node_ids_map (fold forward_entry g init_state))"
      by simp
  qed
  then show "nodes (collect t) =
      (\<Union>e\<in>set g. insert (node_decl (node_id t (dp_key (fst e)))
                            (dp_project_name (fst e) @ BSN @ dp_version (fst e)))
                    (\<Union>d\<in>set (snd e). dependency_nodes (node_id t) d))"
    and "edges (collect t) =
      (\<Union>e\<in>set g. (\<lambda>d. dependency_edge (node_id t) (node_id t (dp_key (fst e))) d) ` set (snd e))"
    unfolding lookup_node_id i by simp_all
qed

lemma collect_reverse:
  fixes g defines "t \<equiv> ReversedPackageDAG g"
  shows "nodes (collect t) =
      (\<lambda>e. node_decl (node_id t (rp_key (fst e))) (reverse_label (fst e))) ` set g"
    and "edges (collect t) =
      (\<Union>e\<in>set g. (\<lambda>d. reverse_dependency_edge (node_id t) (node_id t (rp_key (fst e))) d) ` set (snd e))"
proof -
  have c: "collect t = fold reverse_entry g init_state"
    by (simp add: t_def)
  have i: "nodes init_state = {}" "edges init_state = {}"
    by (simp_all add: init_state_def)
  have "nodes (collect t) = nodes init_state \<union>
      (\<Union>e\<in>set g. {node_decl (lookup (node_ids_map (collect t)) (rp_key (fst e))) (reverse_label (fst e))})
    \<and> edges (collect t) = edges init_state \<union>
      (\<Union>e\<in>set g. (\<lambda>d. reverse_dependency_edge (lookup (node_ids_map (collect t)))
                          (lookup (node_ids_map (collect t)) (rp_key (fst e))) d) ` set (snd e))"
    unfolding c
  proof (rule fold_collect_sets [where f = reverse_entry
        and keys = "\<lambda>e. rp_key (fst e) # map dp_key (snd e)"
        and N = "\<lambda>h e. {node_decl (h (rp_key (fst e))) (reverse_label (fst e))}"
        and E = "\<lambda>h e. (\<lambda>d. reverse_dependency_edge h (h (rp_key (fst e))) d) ` set (snd e)"])
    show "node_ids_map (reverse_entry x s) = assign (rp_key (fst x) # map dp_key (snd x)) (node_ids_map s)" for x s
      by (rule reverse_entry_ids)
    show "map_of (node_ids_map (reverse_entry x s)) \<subseteq>\<^sub>m map_of M \<Longrightarrow>
       nodes (reverse_entry x s) = nodes s \<union> {node_decl (lookup M (rp_key (fst x))) (reverse_label (fst x))} \<and>
       edges (reverse_entry x s) = edges s \<union> (\<lambda>d. reverse_dependency_edge (lookup M) (lookup M (rp_key (fst x))) d) ` set (snd x)" for x s M
      by (rule reverse_entry_sets)
    show "map_of (node_ids_map (fold reverse_entry g init_state))
        \<subseteq>\<^sub>m map_of (node_ids_map (fold reverse_entry g init_state))"
      by simp
  qed
  then show "nodes (collect t) =
      (\<lambda>e. node_decl (node_id t (rp_key (fst e))) (reverse_label (fst e))) ` set g"
    and "edges (collect t) =
      (\<Union>e\<in>set g. (\<lambda>d. reverse_dependency_edge (node_id t) (node_id t (rp_key (fst e))) d) ` set (snd e))"
    unfolding lookup_node_id i by auto
qed

subsection \<open>The emitted text\<close>

lemma indent_eq: "indent = ''    ''"
  by (simp add: indent_def eval_nat_numeral)

lemma unlines_append: "unlines (xs @ ys) = unlines xs @ unlines ys"
  by (simp add: unlines_def)

lemma unlines_Cons: "unlines (x # xs) = x @ NL @ unlines xs"
  by (simp add: unlines_def)

lemma unlines_Nil: "unlines [] = []"
  by (simp add: unlines_def)

lemma join_block: "indent @ join (NL @ indent) ds @ NL = unlines (block ds)"
proof (induction "NL @ indent" ds rule: join.induct)
  case 1
  show ?case by (simp add: block_def unlines_def)
next
  case (2 x)
  show ?case by (simp add: block_def unlines_def)
next
  case (3 x y ys)
  then show ?case by (simp add: block_def unlines_def)
qed

lemma emit_layout:
  "emit ns es =
     unlines ([''flowchart TD'', indent @ ''classDef missing stroke-dasharray: 5'']
              @ block ns @ block es)"
proof -
  have "emit ns es = unlines [''flowchart TD'', indent @ ''classDef missing stroke-dasharray: 5'']
      @ (indent @ join (NL @ indent) ns @ NL) @ (indent @ join (NL @ indent) es @ NL)"
    by (simp add: emit_def unlines_def)
  then show ?thesis
    by (simp only: join_block unlines_append)
qed

lemma unlines_line:
  assumes "l \<in> set ls"
  shows "sublist (NL @ l @ NL) (unlines (h # ls))"
proof -
  from assms obtain xs ys where ls: "ls = xs @ l # ys"
    by (meson split_list)
  have "\<exists>z. unlines (h # xs) = z @ NL"
  proof (cases xs rule: rev_cases)
    case Nil
    then show ?thesis by (simp add: unlines_def)
  next
    case (snoc zs x)
    then have "unlines (h # xs) = (unlines (h # zs) @ x) @ NL"
      by (simp add: unlines_def)
    then show ?thesis by blast
  qed
  then obtain z where z: "unlines (h # xs) = z @ NL" by blast
  have "unlines (h # ls) = unlines (h # xs) @ l @ NL @ unlines ys"
    by (simp add: ls unlines_def)
  then have "unlines (h # ls) = z @ (NL @ l @ NL) @ unlines ys"
    by (simp add: z)
  then show ?thesis
    by (metis sublist_appendI)
qed

lemma declares_emit_node: "d \<in> set ns \<Longrightarrow> declares (emit ns es) d"
proof -
  assume "d \<in> set ns"
  then have "ns \<noteq> []" by auto
  with \<open>d \<in> set ns\<close> have "indent @ d \<in> set (block ns)"
    by (simp add: block_def)
  then have "indent @ d \<in> set ([indent @ ''classDef missing stroke-dasharray: 5''] @ block ns @ block es)"
    by simp
  then have "sublist (NL @ (indent @ d) @ NL)
      (unlines (''flowchart TD'' # [indent @ ''classDef missing stroke-dasharray: 5''] @ block ns @ block es))"
    by (rule unlines_line)
  then show ?thesis by (simp add: declares_def emit_layout)
qed

lemma declares_emit_edge: "d \<in> set es \<Longrightarrow> declares (emit ns es) d"
proof -
  assume "d \<in> set es"
  then have "es \<noteq> []" by auto
  with \<open>d \<in> set es\<close> have "indent @ d \<in> set (block es)"
    by (simp add: block_def)
  then have "indent @ d \<in> set ([indent @ ''classDef missing stroke-dasharray: 5''] @ block ns @ block es)"
    by simp
  then have "sublist (NL @ (indent @ d) @ NL)
      (unlines (''flowchart TD'' # [indent @ ''classDef missing stroke-dasharray: 5''] @ block ns @ block es))"
    by (rule unlines_line)
  then show ?thesis by (simp add: declares_def emit_layout)
qed

lemma finite_dependency_nodes: "finite (dependency_nodes g d)"
  by (simp add: dependency_nodes_def)

lemma finite_collect: "finite (nodes (collect t))" "finite (edges (collect t))"
proof -
  show "finite (nodes (collect t))"
    by (cases t) (simp_all only: collect_forward collect_reverse, simp_all add: finite_dependency_nodes)
  show "finite (edges (collect t))"
    by (cases t) (simp_all only: collect_forward collect_reverse, simp_all)
qed

lemma declares_node: "d \<in> nodes (collect t) \<Longrightarrow> declares (render_mermaid t) d"
  by (simp add: render_mermaid_def Let_def declares_emit_node finite_collect)

lemma declares_edge: "d \<in> edges (collect t) \<Longrightarrow> declares (render_mermaid t) d"
  by (simp add: render_mermaid_def Let_def declares_emit_edge finite_collect)

subsection \<open>Identifiers are never reserved words\<close>

lemma str_digits: "c \<in> set (str n) \<Longrightarrow> is_digit c"
proof (induction n rule: str.induct)
  case (1 n)
  show ?case
  proof (cases "n < 10")
    case True
    with "1.prems" have "c = char_of (48 + n)"
      by (subst (asm) str.simps) simp
    with True show ?thesis by (simp add: is_digit_def)
  next
    case False
    with "1.prems" have "c \<in> set (str (n div 10)) \<or> c = char_of (48 + n mod 10)"
      by (subst (asm) str.simps) auto
    then show ?thesis
    proof
      assume "c \<in> set (str (n div 10))"
      with False "1.IH" show ?thesis by simp
    next
      assume c: "c = char_of (48 + n mod 10)"
      have "n mod 10 < 10" by simp
      then have "(48 + n mod 10) mod 256 = 48 + n mod 10" by simp
      with c show ?thesis by (simp add: is_digit_def)
    qed
  qed
qed

lemma reserved_tail: "w \<in> RESERVED_IDS \<Longrightarrow> hd (dropWhile is_digit (rev w)) \<noteq> CHR ''_''"
  by (auto simp: RESERVED_IDS_def is_digit_def)

lemma candidate_tail: "hd (dropWhile is_digit (rev (key @ ''_'' @ str j))) = CHR ''_''"
proof -
  have "dropWhile is_digit (rev (str j) @ CHR ''_'' # rev key) = dropWhile is_digit (CHR ''_'' # rev key)"
    by (rule dropWhile_append2) (simp add: str_digits)
  then show ?thesis by (simp add: is_digit_def)
qed

lemma candidate_not_reserved: "key @ ''_'' @ str j \<notin> RESERVED_IDS"
  using reserved_tail candidate_tail by blast

lemma mermaid_id_cases:
  "(\<exists>c. map_of m k = Some c \<and> mermaid_id k m = (c, m))
   \<or> (map_of m k = None \<and> k \<notin> RESERVED_IDS \<and> mermaid_id k m = (k, AList.update k k m))
   \<or> (map_of m k = None \<and> k \<in> RESERVED_IDS \<and>
       (\<exists>j. mermaid_id k m = (k @ ''_'' @ str j, AList.update k (k @ ''_'' @ str j) m)
            \<and> map_of m (k @ ''_'' @ str j) = None))"
proof (cases "map_of m k")
  case (Some c)
  then show ?thesis by (simp add: mermaid_id_memo)
next
  case None
  show ?thesis
  proof (cases "k \<in> RESERVED_IDS")
    case False
    with None show ?thesis by (simp add: mermaid_id_def)
  next
    case True
    obtain j where "probe m k 0 = (k @ ''_'' @ str j, AList.update k (k @ ''_'' @ str j) m)"
      "map_of m (k @ ''_'' @ str j) = None"
      using probe_result [of 0 m k] by blast
    with None True show ?thesis by (auto simp: mermaid_id_def)
  qed
qed

lemma mermaid_id_values:
  assumes "\<And>k v. map_of m k = Some v \<Longrightarrow> v \<notin> RESERVED_IDS"
  shows "fst (mermaid_id key m) \<notin> RESERVED_IDS"
  using mermaid_id_cases [of m key] assms candidate_not_reserved by auto

lemma assign_values:
  assumes "\<And>k v. map_of m k = Some v \<Longrightarrow> v \<notin> RESERVED_IDS"
  shows "map_of (assign ks m) k = Some v \<Longrightarrow> v \<notin> RESERVED_IDS"
  using assms
proof (induction ks arbitrary: m)
  case Nil
  then show ?case by simp
next
  case (Cons a ks)
  have "v' \<notin> RESERVED_IDS" if "map_of (snd (mermaid_id a m)) k' = Some v'" for k' v'
    using that Cons.prems(2) mermaid_id_values [of m a]
    by (auto simp: mermaid_id_map split: if_splits)
  with Cons.IH [of "snd (mermaid_id a m)"] Cons.prems(1) show ?case by simp
qed

subsection \<open>Identifiers that do not depend on the encounter order\<close>

lemma str_0: "str 0 = ''0''"
  by code_simp

lemma mermaid_id_canon:
  assumes clash: "\<And>k. k \<in> K \<Longrightarrow> k \<in> RESERVED_IDS \<Longrightarrow> k @ ''_0'' \<notin> K"
    and a: "a \<in> K"
    and dom: "dom (map_of m) \<subseteq> K"
    and inv: "\<And>k v. map_of m k = Some v \<Longrightarrow> v = canon k"
  shows "fst (mermaid_id a m) = canon a"
proof (cases "map_of m a")
  case (Some c)
  with inv show ?thesis by (simp add: mermaid_id_memo)
next
  case None
  show ?thesis
  proof (cases "a \<in> RESERVED_IDS")
    case False
    with None show ?thesis by (simp add: mermaid_id_def canon_def)
  next
    case True
    with clash a have "a @ ''_0'' \<notin> K" by blast
    with dom have "map_of m (a @ ''_0'') = None" by blast
    then have "probe m a 0 = (a @ ''_0'', AList.update a (a @ ''_0'') m)"
      by (subst probe.simps) (simp add: str_0 Let_def)
    with None True show ?thesis by (simp add: mermaid_id_def canon_def)
  qed
qed

lemma assign_canon:
  assumes clash: "\<And>k. k \<in> K \<Longrightarrow> k \<in> RESERVED_IDS \<Longrightarrow> k @ ''_0'' \<notin> K"
  shows "set ks \<subseteq> K \<Longrightarrow> dom (map_of m) \<subseteq> K \<Longrightarrow>
         (\<And>k v. map_of m k = Some v \<Longrightarrow> v = canon k) \<Longrightarrow>
         map_of (assign ks m) k = Some v \<Longrightarrow> v = canon k"
proof (induction ks arbitrary: m)
  case Nil
  then show ?case by simp
next
  case (Cons a ks)
  from Cons.prems have a: "a \<in> K" by simp
  have c: "fst (mermaid_id a m) = canon a"
    using clash a Cons.prems(2) Cons.prems(3) by (rule mermaid_id_canon)
  have d: "dom (map_of (snd (mermaid_id a m))) \<subseteq> K"
    using a Cons.prems(2) by (simp add: mermaid_id_map)
  have i: "v' = canon k'" if "map_of (snd (mermaid_id a m)) k' = Some v'" for k' v'
    using that c Cons.prems(3) by (auto simp: mermaid_id_map split: if_splits)
  from Cons.prems(1) have "set ks \<subseteq> K" by simp
  then show ?case
    using d i Cons.prems(4) by (intro Cons.IH [of "snd (mermaid_id a m)"]) simp_all
qed

lemma node_id_canon:
  assumes "no_suffix_clash t" and "k \<in> set (key_sequence t)"
  shows "node_id t k = canon k"
proof -
  from assms(2) have "k \<in> dom (map_of (assign (key_sequence t) []))"
    by (simp add: dom_assign)
  then obtain v where v: "map_of (assign (key_sequence t) []) k = Some v" by blast
  have "v = canon k"
  proof (rule assign_canon [where K = "set (key_sequence t)" and m = "[]" and ks = "key_sequence t"])
    show "k @ ''_0'' \<notin> set (key_sequence t)"
      if "k \<in> set (key_sequence t)" "k \<in> RESERVED_IDS" for k
      using that assms(1) by (simp add: no_suffix_clash_def)
    show "map_of (assign (key_sequence t) []) k = Some v" by (rule v)
  qed simp_all
  with v show ?thesis
    by (simp add: node_id_def collect_ids mermaid_id_memo)
qed

lemma collect_canon:
  assumes "no_suffix_clash t"
  shows "nodes (collect t) = canon_nodes t" and "edges (collect t) = canon_edges t"
proof -
  note c = node_id_canon [OF assms]
  show "nodes (collect t) = canon_nodes t"
  proof (cases t)
    case (PackageDAG g)
    have 1: "node_id t (dp_key (fst e)) = canon (dp_key (fst e))" if "e \<in> set g" for e
      using that by (intro c) (auto simp: PackageDAG)
    have 2: "dependency_nodes (node_id t) d = dependency_nodes canon d"
      if "e \<in> set g" "d \<in> set (snd e)" for e d
    proof -
      from that have "node_id t (rp_key d) = canon (rp_key d)"
        by (intro c) (auto simp: PackageDAG)
      then show ?thesis by (simp add: dependency_nodes_def)
    qed
    show ?thesis
      unfolding PackageDAG collect_forward canon_nodes.simps
      using 1 2 by (simp add: PackageDAG)
  next
    case (ReversedPackageDAG g)
    have 1: "node_id t (rp_key (fst e)) = canon (rp_key (fst e))" if "e \<in> set g" for e
      using that by (intro c) (auto simp: ReversedPackageDAG)
    show ?thesis
      unfolding ReversedPackageDAG collect_reverse canon_nodes.simps
      using 1 by (simp add: ReversedPackageDAG)
  qed
  show "edges (collect t) = canon_edges t"
  proof (cases t)
    case (PackageDAG g)
    have 1: "node_id t (dp_key (fst e)) = canon (dp_key (fst e))" if "e \<in> set g" for e
      using that by (intro c) (auto simp: PackageDAG)
    have 2: "dependency_edge (node_id t) a d = dependency_edge canon a d"
      if "e \<in> set g" "d \<in> set (snd e)" for e d a
    proof -
      from that have "node_id t (rp_key d) = canon (rp_key d)"
        by (intro c) (auto simp: PackageDAG)
      then show ?thesis by (simp add: dependency_edge_def)
    qed
    show ?thesis
      unfolding PackageDAG collect_forward canon_edges.simps
      using 1 2 by (simp add: PackageDAG)
  next
    case (ReversedPackageDAG g)
    have 1: "node_id t (rp_key (fst e)) = canon (rp_key (fst e))" if "e \<in> set g" for e
      using that by (intro c) (auto simp: ReversedPackageDAG)
    have 2: "reverse_dependency_edge (node_id t) a d = reverse_dependency_edge canon a d"
      if "e \<in> set g" "d \<in> set (snd e)" for e d a
    proof -
      from that have "node_id t (dp_key d) = canon (dp_key d)"
        by (intro c) (auto simp: ReversedPackageDAG)
      then show ?thesis by (simp add: reverse_dependency_edge_def)
    qed
    show ?thesis
      unfolding ReversedPackageDAG collect_reverse canon_edges.simps
      using 1 2 by (simp add: ReversedPackageDAG)
  qed
qed

lemma same_entries_canon:
  assumes "same_entries t t'"
  shows "canon_nodes t = canon_nodes t'" and "canon_edges t = canon_edges t'"
    and "set (key_sequence t) = set (key_sequence t')"
  using assms by (cases t; cases t'; simp)+

subsection \<open>Membership of the collected declarations\<close>

lemma forward_node_mem:
  assumes "(p, ds) \<in> set g"
  shows "node_decl (node_id (PackageDAG g) (dp_key p)) (dp_project_name p @ BSN @ dp_version p)
         \<in> nodes (collect (PackageDAG g))"
  unfolding collect_forward using assms by force

lemma forward_missing_mem:
  assumes "(p, ds) \<in> set g" and "d \<in> set ds" and "rp_is_missing d"
  shows "missing_node_decl (node_id (PackageDAG g) (rp_key d)) (rp_project_name d @ BSN @ ''(missing)'')
         \<in> nodes (collect (PackageDAG g))"
proof -
  from assms(3) have "missing_node_decl (node_id (PackageDAG g) (rp_key d))
      (rp_project_name d @ BSN @ ''(missing)'') \<in> dependency_nodes (node_id (PackageDAG g)) d"
    by (simp add: dependency_nodes_def)
  with assms(1,2) show ?thesis
    unfolding collect_forward by force
qed

lemma forward_edge_mem:
  assumes "(p, ds) \<in> set g" and "d \<in> set ds"
  shows "dependency_edge (node_id (PackageDAG g)) (node_id (PackageDAG g) (dp_key p)) d
         \<in> edges (collect (PackageDAG g))"
  unfolding collect_forward using assms by force

lemma reverse_node_mem:
  assumes "(p, ds) \<in> set g"
  shows "node_decl (node_id (ReversedPackageDAG g) (rp_key p)) (reverse_label p)
         \<in> nodes (collect (ReversedPackageDAG g))"
  unfolding collect_reverse using assms by force

lemma reverse_edge_mem:
  assumes "(p, ds) \<in> set g" and "d \<in> set ds"
  shows "reverse_dependency_edge (node_id (ReversedPackageDAG g))
           (node_id (ReversedPackageDAG g) (rp_key p)) d
         \<in> edges (collect (ReversedPackageDAG g))"
  unfolding collect_reverse using assms by force

subsection \<open>Texts of edges; specifiers of missing dependencies\<close>












subsection \<open>The call on a store and the collected state\<close>

text \<open>
  The three objects that a call creates go through the states of the model without
  store, whatever else the store holds: the references of the frame are distinct, every
  step writes only behind them, and they start as the empty dictionary and the empty
  sets.
\<close>

lemma new_obj_simps:
  "fst (new_obj v st) = next_ref st"
  "objects (snd (new_obj v st)) = (objects st)(next_ref st \<mapsto> v)"
  "next_ref (snd (new_obj v st)) = Suc (next_ref st)"
  by (simp_all add: new_obj_def)

lemma view_mermaid_id_st:
  assumes "separate fr"
  shows "fst (mermaid_id_st fr k st) = fst (mermaid_id k (node_ids_map (view fr st)))"
    and "view fr (snd (mermaid_id_st fr k st))
         = (view fr st)\<lparr>node_ids_map := snd (mermaid_id k (node_ids_map (view fr st)))\<rparr>"
  using assms
  by (simp_all add: mermaid_id_st_def view_def separate_def dict_of_def strs_of_def split_beta)

lemma view_add_nodes:
  assumes "separate fr"
  shows "view fr (add_st (nodes_ref fr) x st) = (view fr st)\<lparr>nodes := insert x (nodes (view fr st))\<rparr>"
  using assms by (simp add: add_st_def view_def separate_def dict_of_def strs_of_def)

lemma view_add_edges:
  assumes "separate fr"
  shows "view fr (add_st (edges_ref fr) x st) = (view fr st)\<lparr>edges := insert x (edges (view fr st))\<rparr>"
  using assms by (simp add: add_st_def view_def separate_def dict_of_def strs_of_def)

lemma view_fold:
  assumes "\<And>x st. view fr (f_st x st) = f x (view fr st)"
  shows "view fr (fold f_st xs st) = fold f xs (view fr st)"
  by (induction xs arbitrary: st) (simp_all add: assms)

lemma view_dependency_step:
  assumes "separate fr"
  shows "view fr (dependency_step_st fr a d st) = dependency_step a d (view fr st)"
  using assms
  by (simp add: dependency_step_st_def dependency_step_def Let_def split_beta
      view_mermaid_id_st view_add_nodes view_add_edges)

lemma view_reverse_dependency_step:
  assumes "separate fr"
  shows "view fr (reverse_dependency_step_st fr a d st) = reverse_dependency_step a d (view fr st)"
  using assms
  by (simp add: reverse_dependency_step_st_def reverse_dependency_step_def Let_def split_beta
      view_mermaid_id_st view_add_edges)

lemma view_forward_entry:
  assumes "separate fr"
  shows "view fr (forward_entry_st fr e st) = forward_entry e (view fr st)"
  using assms
  by (simp add: forward_entry_st_def forward_entry_def Let_def split_beta
      view_fold [where f = "dependency_step a" for a, OF view_dependency_step]
      view_mermaid_id_st view_add_nodes)

lemma view_reverse_entry:
  assumes "separate fr"
  shows "view fr (reverse_entry_st fr e st) = reverse_entry e (view fr st)"
  using assms
  by (simp add: reverse_entry_st_def reverse_entry_def Let_def split_beta
      view_fold [where f = "reverse_dependency_step a" for a, OF view_reverse_dependency_step]
      view_mermaid_id_st view_add_nodes)

lemma render_mermaid_st_collect:
  "fst (render_mermaid_st iteration tree st)
     = emit (sort (iteration (nodes (collect tree)))) (sort (iteration (edges (collect tree))))"
proof -
  define st1 where "st1 = snd (new_obj (Dict []) st)"
  define st2 where "st2 = snd (new_obj (Str_set {}) st1)"
  define st3 where "st3 = snd (new_obj (Str_set {}) st2)"
  define fr where "fr = \<lparr>ids_ref = fst (new_obj (Dict []) st),
      nodes_ref = fst (new_obj (Str_set {}) st1), edges_ref = fst (new_obj (Str_set {}) st2)\<rparr>"
  define st' where "st' = (case tree of
                  ReversedPackageDAG items \<Rightarrow> fold (reverse_entry_st fr) items st3
                | PackageDAG items \<Rightarrow> fold (forward_entry_st fr) items st3)"
  have sep: "separate fr"
    by (simp add: separate_def fr_def st1_def st2_def new_obj_simps)
  have "view fr st3 = init_state"
    by (simp add: view_def init_state_def fr_def st1_def st2_def st3_def new_obj_simps
        dict_of_def strs_of_def)
  then have v: "view fr st' = collect tree"
    by (cases tree)
      (simp_all add: st'_def view_fold [where f = forward_entry, OF view_forward_entry [OF sep]]
        view_fold [where f = reverse_entry, OF view_reverse_entry [OF sep]])
  have r: "render_mermaid_st iteration tree st =
      (emit (sort (iteration (strs_of st' (nodes_ref fr)))) (sort (iteration (strs_of st' (edges_ref fr)))), st')"
    unfolding render_mermaid_st_def st'_def fr_def st1_def st2_def st3_def
    by (simp only: Let_def split_beta frame.simps)
  have "nodes (view fr st') = strs_of st' (nodes_ref fr)" "edges (view fr st') = strs_of st' (edges_ref fr)"
    by (simp_all add: view_def)
  then have "strs_of st' (nodes_ref fr) = nodes (collect tree)"
    "strs_of st' (edges_ref fr) = edges (collect tree)"
    by (simp_all add: v)
  with r show ?thesis by simp
qed

lemma render_mermaid_st_output:
  assumes "\<And>S. finite S \<Longrightarrow> set (iteration S) = S \<and> distinct (iteration S)"
  shows "fst (render_mermaid_st iteration tree st) = render_mermaid tree"
proof -
  have s: "sort (iteration S) = sorted_list_of_set S" if "finite S" for S
  proof -
    from assms [OF that] have "set (iteration S) = S" "distinct (iteration S)" by simp_all
    then show ?thesis
      by (metis sorted_list_of_set_sort_remdups distinct_remdups_id)
  qed
  show ?thesis
    by (simp add: render_mermaid_st_collect render_mermaid_def Let_def s finite_collect)
qed

lemma render_mermaid_st_view:
  "view \<lparr>ids_ref = next_ref st, nodes_ref = Suc (next_ref st), edges_ref = Suc (Suc (next_ref st))\<rparr>
     (snd (render_mermaid_st iteration tree st)) = collect tree"
proof -
  define st1 where "st1 = snd (new_obj (Dict []) st)"
  define st2 where "st2 = snd (new_obj (Str_set {}) st1)"
  define st3 where "st3 = snd (new_obj (Str_set {}) st2)"
  define fr where "fr = \<lparr>ids_ref = fst (new_obj (Dict []) st),
      nodes_ref = fst (new_obj (Str_set {}) st1), edges_ref = fst (new_obj (Str_set {}) st2)\<rparr>"
  define st' where "st' = (case tree of
                  ReversedPackageDAG items \<Rightarrow> fold (reverse_entry_st fr) items st3
                | PackageDAG items \<Rightarrow> fold (forward_entry_st fr) items st3)"
  have f: "fr = \<lparr>ids_ref = next_ref st, nodes_ref = Suc (next_ref st),
      edges_ref = Suc (Suc (next_ref st))\<rparr>"
    by (simp add: fr_def st1_def st2_def new_obj_simps)
  have sep: "separate fr"
    by (simp add: separate_def f)
  have "view fr st3 = init_state"
    by (simp add: view_def init_state_def f st1_def st2_def st3_def new_obj_simps
        dict_of_def strs_of_def)
  then have v: "view fr st' = collect tree"
    by (cases tree)
      (simp_all add: st'_def view_fold [where f = forward_entry, OF view_forward_entry [OF sep]]
        view_fold [where f = reverse_entry, OF view_reverse_entry [OF sep]])
  have "snd (render_mermaid_st iteration tree st) = st'"
    unfolding render_mermaid_st_def st'_def fr_def st1_def st2_def st3_def
    by (simp only: Let_def split_beta frame.simps snd_conv)
  with v f show ?thesis by simp
qed

section \<open>The claims\<close>

subsection \<open>C1\<close>

text \<open>
  Claim C1 says that \<^verbatim>\<open>mermaid_id\<close> never gives one identifier to two distinct keys, also
  when one key is the reserved word \<^verbatim>\<open>class\<close> and another key is the text \<^verbatim>\<open>class_0\<close>.
  The loop of \<^verbatim>\<open>mermaid_id\<close> skips the candidates that are keys seen so far, and a key
  that is no reserved word is returned as it is without any test. On a graph whose
  entries have the keys \<^verbatim>\<open>class\<close> and \<^verbatim>\<open>class_0\<close>, in this order, the code gives the
  identifier \<^verbatim>\<open>class_0\<close> to both, and the output declares two nodes under one identifier.
\<close>

theorem mermaid_id_collision:
  "fst (mermaid_id ''class'' []) = ''class_0''
   \<and> fst (mermaid_id ''class_0'' (snd (mermaid_id ''class'' []))) = ''class_0''
   \<and> node_ids_map (collect (PackageDAG [(pkg_class, []), (pkg_class_0, [])])) =
       [(''class'', ''class_0''), (''class_0'', ''class_0'')]
   \<and> render_mermaid (PackageDAG [(pkg_class, []), (pkg_class_0, [])]) =
       ''flowchart TD'' @ NL @
       ''    classDef missing stroke-dasharray: 5'' @ NL @
       ''    class_0['' @ DQ @ ''class'' @ BSN @ ''1.0'' @ DQ @ '']'' @ NL @
       ''    class_0['' @ DQ @ ''class_0'' @ BSN @ ''2.0'' @ DQ @ '']'' @ NL @
       ''    '' @ NL"
  by code_simp

subsection \<open>C2\<close>

text \<open>
  Claim C2, as stated: two runs over the same set of entries give the same text even when
  they meet the entries in different orders. With the keys \<^verbatim>\<open>end\<close> and \<^verbatim>\<open>end_0\<close> the
  identifier of \<^verbatim>\<open>end\<close> is \<^verbatim>\<open>end_0\<close> when \<^verbatim>\<open>end\<close> comes first and \<^verbatim>\<open>end_1\<close> when it comes
  second, and the two texts differ.
\<close>

theorem render_mermaid_order_counterexample:
  "same_entries (PackageDAG [(pkg_end, []), (pkg_end_0, [])])
                (PackageDAG [(pkg_end_0, []), (pkg_end, [])])
   \<and> render_mermaid (PackageDAG [(pkg_end, []), (pkg_end_0, [])]) \<noteq>
     render_mermaid (PackageDAG [(pkg_end_0, []), (pkg_end, [])])"
proof -
  have "render_mermaid (PackageDAG [(pkg_end, []), (pkg_end_0, [])]) \<noteq>
     render_mermaid (PackageDAG [(pkg_end_0, []), (pkg_end, [])])"
    by code_simp
  then show ?thesis by auto
qed

text \<open>
  Claim C2, amended: two graphs of the same mode with the same set of entries give the
  same text, whatever the order of their entries, provided that for no reserved word
  \<open>k\<close> among the keys met in the graph the text \<open>k_0\<close> is also among these keys. Then
  every key has one identifier in every order (\<^const>\<open>canon\<close>), and the sorted output
  depends on the set of entries alone.
\<close>

theorem render_mermaid_order_independent:
  assumes "same_entries t t'" and "no_suffix_clash t"
  shows "render_mermaid t = render_mermaid t'"
proof -
  from assms have "no_suffix_clash t'"
    by (simp add: no_suffix_clash_def same_entries_canon(3))
  then have "nodes (collect t') = canon_nodes t'" "edges (collect t') = canon_edges t'"
    by (rule collect_canon)+
  moreover from assms(2) have "nodes (collect t) = canon_nodes t" "edges (collect t) = canon_edges t"
    by (rule collect_canon)+
  ultimately show ?thesis
    using same_entries_canon(1,2) [OF assms(1)] by (simp add: render_mermaid_def)
qed

text \<open>
  Witness for C2: two entries, one of them with the reserved key \<^verbatim>\<open>class\<close>, in both orders.
\<close>

theorem render_mermaid_order_independent_witness:
  "render_mermaid (PackageDAG [(pkg_a, [dep_b]), (pkg_class, [])]) =
   render_mermaid (PackageDAG [(pkg_class, []), (pkg_a, [dep_b])])"
proof -
  have s: "same_entries (PackageDAG [(pkg_a, [dep_b]), (pkg_class, [])])
                        (PackageDAG [(pkg_class, []), (pkg_a, [dep_b])])"
    by auto
  have c: "no_suffix_clash (PackageDAG [(pkg_a, [dep_b]), (pkg_class, [])])"
    by code_simp
  show ?thesis
    by (rule render_mermaid_order_independent [OF s c])
qed

subsection \<open>C3\<close>

text \<open>
  Claim C3, as stated: every key met during the render, also one met only as a neighbor
  that is not missing, gets a node declaration. Package \<open>A\<close> depends on the installed
  package \<open>B\<close>, and \<open>B\<close> is no entry of the graph: the key \<^verbatim>\<open>b\<close> is met and mapped, the
  output has the edge to \<^verbatim>\<open>b\<close>, and its only node declaration is the one of \<^verbatim>\<open>a\<close>.
\<close>

theorem node_declaration_counterexample:
  "map_of (node_ids_map (collect (PackageDAG [(pkg_a, [dep_b])]))) ''b'' = Some ''b''
   \<and> nodes (collect (PackageDAG [(pkg_a, [dep_b])])) = {node_decl ''a'' (''A'' @ BSN @ ''1.0'')}
   \<and> render_mermaid (PackageDAG [(pkg_a, [dep_b])]) =
       ''flowchart TD'' @ NL @
       ''    classDef missing stroke-dasharray: 5'' @ NL @
       ''    a['' @ DQ @ ''A'' @ BSN @ ''1.0'' @ DQ @ '']'' @ NL @
       ''    a -- '' @ DQ @ ''any'' @ DQ @ '' --> b'' @ NL
   \<and> \<not> sublist ''b['' (render_mermaid (PackageDAG [(pkg_a, [dep_b])]))"
  by code_simp

text \<open>
  Claim C3, amended: the output has a node declaration for the key of every top-level
  entry, in both modes, and a declaration tagged \<^verbatim>\<open>:::missing\<close> for the key of every
  forward-mode dependency that is flagged missing, each under the identifier that
  \<^verbatim>\<open>mermaid_id\<close> gives to the key. These are all the node declarations collected: a key
  met only as a forward-mode dependency that is not missing, or only as a dependent in
  reverse mode, gets no declaration of its own.
\<close>

theorem node_declarations:
  "((p, ds) \<in> set g \<longrightarrow>
      declares (render_mermaid (PackageDAG g))
        (node_decl (node_id (PackageDAG g) (dp_key p)) (dp_project_name p @ BSN @ dp_version p)))
   \<and> ((p, ds) \<in> set g \<and> d \<in> set ds \<and> rp_is_missing d \<longrightarrow>
      declares (render_mermaid (PackageDAG g))
        (missing_node_decl (node_id (PackageDAG g) (rp_key d))
           (rp_project_name d @ BSN @ ''(missing)'')))
   \<and> ((q, rs) \<in> set h \<longrightarrow>
      declares (render_mermaid (ReversedPackageDAG h))
        (node_decl (node_id (ReversedPackageDAG h) (rp_key q))
           (rp_project_name q @ BSN @
              (if rp_is_missing q then ''(missing)'' else rp_installed_version q))))
   \<and> nodes (collect (PackageDAG g)) =
       {node_decl (node_id (PackageDAG g) (dp_key p')) (dp_project_name p' @ BSN @ dp_version p')
          | p' ds'. (p', ds') \<in> set g}
       \<union> {missing_node_decl (node_id (PackageDAG g) (rp_key d'))
             (rp_project_name d' @ BSN @ ''(missing)'')
          | p' ds' d'. (p', ds') \<in> set g \<and> d' \<in> set ds' \<and> rp_is_missing d'}
   \<and> nodes (collect (ReversedPackageDAG h)) =
       {node_decl (node_id (ReversedPackageDAG h) (rp_key q'))
          (rp_project_name q' @ BSN @
             (if rp_is_missing q' then ''(missing)'' else rp_installed_version q'))
          | q' rs'. (q', rs') \<in> set h}"
proof -
  have 1: "declares (render_mermaid (PackageDAG g))
        (node_decl (node_id (PackageDAG g) (dp_key p)) (dp_project_name p @ BSN @ dp_version p))"
    if "(p, ds) \<in> set g"
    using that by (intro declares_node forward_node_mem)
  have 2: "declares (render_mermaid (PackageDAG g))
        (missing_node_decl (node_id (PackageDAG g) (rp_key d))
           (rp_project_name d @ BSN @ ''(missing)''))"
    if "(p, ds) \<in> set g" "d \<in> set ds" "rp_is_missing d"
    using that by (intro declares_node forward_missing_mem)
  have 3: "declares (render_mermaid (ReversedPackageDAG h))
        (node_decl (node_id (ReversedPackageDAG h) (rp_key q))
           (rp_project_name q @ BSN @
              (if rp_is_missing q then ''(missing)'' else rp_installed_version q)))"
    if "(q, rs) \<in> set h"
    using declares_node [OF reverse_node_mem [OF that]] by (simp add: reverse_label_def)
  have 4: "nodes (collect (PackageDAG g)) =
       {node_decl (node_id (PackageDAG g) (dp_key p')) (dp_project_name p' @ BSN @ dp_version p')
          | p' ds'. (p', ds') \<in> set g}
       \<union> {missing_node_decl (node_id (PackageDAG g) (rp_key d'))
             (rp_project_name d' @ BSN @ ''(missing)'')
          | p' ds' d'. (p', ds') \<in> set g \<and> d' \<in> set ds' \<and> rp_is_missing d'}"
    unfolding collect_forward
    by (auto simp: dependency_nodes_def split: if_splits) force+
  have 5: "nodes (collect (ReversedPackageDAG h)) =
       {node_decl (node_id (ReversedPackageDAG h) (rp_key q'))
          (rp_project_name q' @ BSN @
             (if rp_is_missing q' then ''(missing)'' else rp_installed_version q'))
          | q' rs'. (q', rs') \<in> set h}"
    unfolding collect_reverse
    by (auto simp: reverse_label_def) force+
  from 1 2 3 4 5 show ?thesis by blast
qed

text \<open>
  Witness for C3: package \<open>A\<close> with the installed dependency \<open>B\<close> and the missing
  dependency \<open>C\<close>, and a reversed graph with the missing package \<open>X\<close>.
\<close>

theorem node_declarations_witness:
  "(pkg_a, [dep_b, dep_c]) \<in> set [(pkg_a, [dep_b, dep_c])]
   \<and> dep_c \<in> set [dep_b, dep_c] \<and> rp_is_missing dep_c
   \<and> (req_x, [pkg_a]) \<in> set [(req_x, [pkg_a])]
   \<and> declares (render_mermaid (PackageDAG [(pkg_a, [dep_b, dep_c])]))
        (node_decl ''a'' (''A'' @ BSN @ ''1.0''))
   \<and> declares (render_mermaid (PackageDAG [(pkg_a, [dep_b, dep_c])]))
        (missing_node_decl ''c'' (''C'' @ BSN @ ''(missing)''))
   \<and> declares (render_mermaid (ReversedPackageDAG [(req_x, [pkg_a])]))
        (node_decl ''x'' (''X'' @ BSN @ ''(missing)''))"
proof -
  have h: "(pkg_a, [dep_b, dep_c]) \<in> set [(pkg_a, [dep_b, dep_c])]
      \<and> dep_c \<in> set [dep_b, dep_c] \<and> rp_is_missing dep_c
      \<and> (req_x, [pkg_a]) \<in> set [(req_x, [pkg_a])]"
    by (simp add: dep_c_def)
  have i: "node_id (PackageDAG [(pkg_a, [dep_b, dep_c])]) (dp_key pkg_a) = ''a''"
    "node_id (PackageDAG [(pkg_a, [dep_b, dep_c])]) (rp_key dep_c) = ''c''"
    "node_id (ReversedPackageDAG [(req_x, [pkg_a])]) (rp_key req_x) = ''x''"
    by code_simp+
  have f: "dp_project_name pkg_a = ''A''" "dp_version pkg_a = ''1.0''"
    "rp_project_name dep_c = ''C''" "rp_project_name req_x = ''X''" "rp_is_missing req_x"
    by (simp_all add: pkg_a_def dep_c_def req_x_def)
  from h node_declarations [where p = pkg_a and ds = "[dep_b, dep_c]"
      and g = "[(pkg_a, [dep_b, dep_c])]" and d = dep_c and q = req_x and rs = "[pkg_a]"
      and h = "[(req_x, [pkg_a])]"]
  show ?thesis
    by (simp add: i f)
qed

subsection \<open>C4\<close>

text \<open>
  Claim C4, as stated: the output is the \<^verbatim>\<open>flowchart TD\<close> line, the \<^verbatim>\<open>classDef\<close> line, the
  sorted node declarations and the sorted edge declarations, one per line, each indented
  by four blanks, and nothing else (\<^const>\<open>claimed_layout\<close>). A graph with one package
  and no dependency has no edge declaration, and its output ends with a line that holds
  the indentation only.
\<close>

theorem render_mermaid_layout_counterexample:
  "render_mermaid (PackageDAG [(pkg_a, [])]) \<noteq>
     claimed_layout (node_lines (PackageDAG [(pkg_a, [])])) (edge_lines (PackageDAG [(pkg_a, [])]))"
  by code_simp

text \<open>
  Claim C4, amended: for every graph the output is the \<^verbatim>\<open>flowchart TD\<close> line, the
  \<^verbatim>\<open>classDef\<close> line, the block of the node declarations and the block of the edge
  declarations. The lines of a block are the collected declarations, each once, sorted
  by their text and indented by four blanks; the block of an empty set is one line that
  holds the four blanks only. When both sets are non-empty the output has exactly the
  layout of the claim.
\<close>

theorem render_mermaid_layout:
  "render_mermaid t =
     unlines ([''flowchart TD'', indent @ ''classDef missing stroke-dasharray: 5'']
              @ block (node_lines t) @ block (edge_lines t))
   \<and> sorted (node_lines t) \<and> distinct (node_lines t) \<and> set (node_lines t) = nodes (collect t)
   \<and> sorted (edge_lines t) \<and> distinct (edge_lines t) \<and> set (edge_lines t) = edges (collect t)
   \<and> (nodes (collect t) \<noteq> {} \<and> edges (collect t) \<noteq> {} \<longrightarrow>
        render_mermaid t = claimed_layout (node_lines t) (edge_lines t))"
proof -
  have r: "render_mermaid t =
     unlines ([''flowchart TD'', indent @ ''classDef missing stroke-dasharray: 5'']
              @ block (node_lines t) @ block (edge_lines t))"
    by (simp add: render_mermaid_def Let_def emit_layout node_lines_def edge_lines_def)
  have n: "sorted (node_lines t) \<and> distinct (node_lines t) \<and> set (node_lines t) = nodes (collect t)"
    by (simp add: node_lines_def finite_collect)
  have e: "sorted (edge_lines t) \<and> distinct (edge_lines t) \<and> set (edge_lines t) = edges (collect t)"
    by (simp add: edge_lines_def finite_collect)
  have "render_mermaid t = claimed_layout (node_lines t) (edge_lines t)"
    if "nodes (collect t) \<noteq> {}" "edges (collect t) \<noteq> {}"
  proof -
    from that n e have "node_lines t \<noteq> []" "edge_lines t \<noteq> []" by auto
    then show ?thesis by (simp add: r claimed_layout_def block_def)
  qed
  with r n e show ?thesis by blast
qed

text \<open>
  Witness for C4: package \<open>A\<close> depending on \<open>B\<close> has a node and an edge, and its output
  has the layout of the claim.
\<close>

theorem render_mermaid_layout_witness:
  "nodes (collect (PackageDAG [(pkg_a, [dep_b])])) \<noteq> {}
   \<and> edges (collect (PackageDAG [(pkg_a, [dep_b])])) \<noteq> {}
   \<and> render_mermaid (PackageDAG [(pkg_a, [dep_b])]) =
       claimed_layout (node_lines (PackageDAG [(pkg_a, [dep_b])])) (edge_lines (PackageDAG [(pkg_a, [dep_b])]))"
proof -
  have h: "nodes (collect (PackageDAG [(pkg_a, [dep_b])])) \<noteq> {}
      \<and> edges (collect (PackageDAG [(pkg_a, [dep_b])])) \<noteq> {}"
    by code_simp
  with render_mermaid_layout [of "PackageDAG [(pkg_a, [dep_b])]"] show ?thesis by blast
qed

subsection \<open>C5\<close>



subsection \<open>C6\<close>

text \<open>
  Claim C6, as stated: in both modes an edge whose neighbor has no version specifier is
  rendered with the label \<^verbatim>\<open>"any"\<close>. Package \<open>A\<close> depends on \<open>M\<close>, which is missing and has
  no specifier: the forward branch computes the label and then does not use it, the edge
  is the dashed one, and no edge labelled \<^verbatim>\<open>"any"\<close> is in the output.
\<close>

theorem unconstrained_edge_counterexample:
  "rp_version_spec dep_m = None
   \<and> render_mermaid (PackageDAG [(pkg_a, [dep_m])]) =
       ''flowchart TD'' @ NL @
       ''    classDef missing stroke-dasharray: 5'' @ NL @
       ''    a['' @ DQ @ ''A'' @ BSN @ ''1.0'' @ DQ @ '']'' @ NL @
       ''    m['' @ DQ @ ''M'' @ BSN @ ''(missing)'' @ DQ @ '']:::missing'' @ NL @
       ''    a -.-> m'' @ NL
   \<and> \<not> declares (render_mermaid (PackageDAG [(pkg_a, [dep_m])])) (solid_edge ''a'' ''any'' ''m'')"
  by code_simp

text \<open>
  Claim C6, amended: an edge whose neighbor has no version specifier, or has the empty
  string as its specifier, is rendered as a solid edge with the label \<^verbatim>\<open>"any"\<close> when the
  neighbor is a forward-mode dependency that is not flagged missing, and for every
  dependent in reverse mode.
\<close>

theorem unconstrained_edge_any:
  "((p, ds) \<in> set g \<and> d \<in> set ds \<and> \<not> rp_is_missing d
      \<and> (rp_version_spec d = None \<or> rp_version_spec d = Some []) \<longrightarrow>
      declares (render_mermaid (PackageDAG g))
        (solid_edge (node_id (PackageDAG g) (dp_key p)) ''any'' (node_id (PackageDAG g) (rp_key d))))
   \<and> ((q, rs) \<in> set h \<and> r \<in> set rs
      \<and> (dp_req_version_spec r = None \<or> dp_req_version_spec r = Some []) \<longrightarrow>
      declares (render_mermaid (ReversedPackageDAG h))
        (solid_edge (node_id (ReversedPackageDAG h) (rp_key q)) ''any''
           (node_id (ReversedPackageDAG h) (dp_key r))))"
proof -
  have 1: "declares (render_mermaid (PackageDAG g))
        (solid_edge (node_id (PackageDAG g) (dp_key p)) ''any'' (node_id (PackageDAG g) (rp_key d)))"
    if "(p, ds) \<in> set g" "d \<in> set ds" "\<not> rp_is_missing d"
      "rp_version_spec d = None \<or> rp_version_spec d = Some []"
  proof -
    from that(4) have "py_or (rp_version_spec d) ''any'' = ''any''"
      by (auto simp: py_or_def)
    with that(3) have "dependency_edge (node_id (PackageDAG g)) (node_id (PackageDAG g) (dp_key p)) d
        = solid_edge (node_id (PackageDAG g) (dp_key p)) ''any'' (node_id (PackageDAG g) (rp_key d))"
      by (simp add: dependency_edge_def)
    with forward_edge_mem [OF that(1,2)] show ?thesis
      by (simp add: declares_edge)
  qed
  have 2: "declares (render_mermaid (ReversedPackageDAG h))
        (solid_edge (node_id (ReversedPackageDAG h) (rp_key q)) ''any''
           (node_id (ReversedPackageDAG h) (dp_key r)))"
    if "(q, rs) \<in> set h" "r \<in> set rs"
      "dp_req_version_spec r = None \<or> dp_req_version_spec r = Some []"
  proof -
    from that(3) have "py_or (dp_req_version_spec r) ''any'' = ''any''"
      by (auto simp: py_or_def)
    then have "reverse_dependency_edge (node_id (ReversedPackageDAG h))
          (node_id (ReversedPackageDAG h) (rp_key q)) r
        = solid_edge (node_id (ReversedPackageDAG h) (rp_key q)) ''any''
           (node_id (ReversedPackageDAG h) (dp_key r))"
      by (simp add: reverse_dependency_edge_def)
    with reverse_edge_mem [OF that(1,2)] show ?thesis
      by (simp add: declares_edge)
  qed
  from 1 2 show ?thesis by blast
qed

text \<open>
  Witness for C6: the example of the claim, package \<open>A\<close> (version 1.0) depending on the
  installed package \<open>B\<close> (version 2.0) without a constraint, gives the edge
  \<^verbatim>\<open>A -- "any" --> B\<close>; and a reversed graph whose dependent has the empty specifier.
\<close>

theorem unconstrained_edge_any_witness:
  "(pkg_A, [dep_B]) \<in> set [(pkg_A, [dep_B])] \<and> dep_B \<in> set [dep_B] \<and> \<not> rp_is_missing dep_B
   \<and> rp_version_spec dep_B = None
   \<and> declares (render_mermaid (PackageDAG [(pkg_A, [dep_B])])) (solid_edge ''A'' ''any'' ''B'')
   \<and> (req_y, [dist_z]) \<in> set [(req_y, [dist_z])] \<and> dist_z \<in> set [dist_z]
   \<and> dp_req_version_spec dist_z = Some []
   \<and> declares (render_mermaid (ReversedPackageDAG [(req_y, [dist_z])])) (solid_edge ''y'' ''any'' ''z'')"
proof -
  have h: "(pkg_A, [dep_B]) \<in> set [(pkg_A, [dep_B])] \<and> dep_B \<in> set [dep_B] \<and> \<not> rp_is_missing dep_B
      \<and> rp_version_spec dep_B = None
      \<and> (req_y, [dist_z]) \<in> set [(req_y, [dist_z])] \<and> dist_z \<in> set [dist_z]
      \<and> dp_req_version_spec dist_z = Some []"
    by (simp add: dep_B_def dist_z_def)
  have i: "node_id (PackageDAG [(pkg_A, [dep_B])]) (dp_key pkg_A) = ''A''"
    "node_id (PackageDAG [(pkg_A, [dep_B])]) (rp_key dep_B) = ''B''"
    "node_id (ReversedPackageDAG [(req_y, [dist_z])]) (rp_key req_y) = ''y''"
    "node_id (ReversedPackageDAG [(req_y, [dist_z])]) (dp_key dist_z) = ''z''"
    by code_simp+
  from h unconstrained_edge_any [where p = pkg_A and ds = "[dep_B]" and g = "[(pkg_A, [dep_B])]"
      and d = dep_B and q = req_y and rs = "[dist_z]" and h = "[(req_y, [dist_z])]" and r = dist_z]
  show ?thesis
    by (simp add: i)
qed

subsection \<open>C7\<close>

text \<open>
  Claim C7: \<^verbatim>\<open>mermaid_id\<close> never returns a member of \<^verbatim>\<open>_RESERVED_IDS\<close>. Within one call
  of \<^verbatim>\<open>render_mermaid\<close> the map \<^verbatim>\<open>node_ids_map\<close> starts empty and changes only through
  \<^verbatim>\<open>mermaid_id\<close>, so at every call it is \<^term>\<open>assign ks []\<close> for the keys \<open>ks\<close> passed
  before; whatever these were and whatever the key, the identifier returned is not a
  reserved word. The map at the end of the render is of this form, and the identifier
  \<^term>\<open>node_id t key\<close> that the declarations of the output carry for a key is not a
  reserved word either.
\<close>

theorem mermaid_id_never_reserved:
  "fst (mermaid_id key (assign ks [])) \<notin> RESERVED_IDS
   \<and> node_ids_map (collect t) = assign (key_sequence t) []
   \<and> node_id t key \<notin> RESERVED_IDS"
proof -
  have a: "fst (mermaid_id key (assign ks [])) \<notin> RESERVED_IDS" for ks
    by (rule mermaid_id_values) (use assign_values [of "[]" ks] in simp)
  then show ?thesis
    by (simp add: node_id_def collect_ids)
qed

subsection \<open>C8\<close>

text \<open>
  Claim C8: for a fixed graph, any two calls of \<^verbatim>\<open>render_mermaid\<close> return the same text;
  no state is carried from one call to the next. On the explicit store: a second call,
  run on the store that the first call leaves behind, returns the text of the first;
  more generally two calls on any two stores return the same text, whichever objects
  earlier calls have left there and in whichever order each run iterates its sets
  (every element of the set once); and this text is the value of \<^const>\<open>render_mermaid\<close>,
  the model without store. The first call does leave its dictionary in the store, with
  the identifiers it has issued; the second call creates its own and never reads it.
\<close>

theorem render_mermaid_st_deterministic:
  assumes "\<And>S. finite S \<Longrightarrow> set (iteration1 S) = S \<and> distinct (iteration1 S)"
    and "\<And>S. finite S \<Longrightarrow> set (iteration2 S) = S \<and> distinct (iteration2 S)"
  shows "fst (render_mermaid_st iteration2 tree (snd (render_mermaid_st iteration1 tree st)))
           = fst (render_mermaid_st iteration1 tree st)
       \<and> fst (render_mermaid_st iteration2 tree st2) = fst (render_mermaid_st iteration1 tree st1)
       \<and> fst (render_mermaid_st iteration1 tree st1) = render_mermaid tree
       \<and> dict_of (snd (render_mermaid_st iteration1 tree st)) (next_ref st)
           = node_ids_map (collect tree)"
proof -
  have "node_ids_map (view \<lparr>ids_ref = next_ref st, nodes_ref = Suc (next_ref st),
          edges_ref = Suc (Suc (next_ref st))\<rparr> (snd (render_mermaid_st iteration1 tree st)))
        = node_ids_map (collect tree)"
    by (simp only: render_mermaid_st_view)
  then have "dict_of (snd (render_mermaid_st iteration1 tree st)) (next_ref st)
           = node_ids_map (collect tree)"
    by (simp add: view_def)
  then show ?thesis
    by (simp add: render_mermaid_st_output [OF assms(1)] render_mermaid_st_output [OF assms(2)])
qed

text \<open>
  Witness for C8: the second call runs on the store left by the first, which already
  held a dictionary and a set of earlier calls, and iterates its sets in the opposite
  order.
\<close>

theorem render_mermaid_st_deterministic_witness:
  "fst (render_mermaid_st descending (PackageDAG [(pkg_a, [dep_b, dep_c]), (pkg_class, [])])
          (snd (render_mermaid_st ascending (PackageDAG [(pkg_a, [dep_b, dep_c]), (pkg_class, [])])
                  used_store)))
   = fst (render_mermaid_st ascending (PackageDAG [(pkg_a, [dep_b, dep_c]), (pkg_class, [])])
            used_store)"
proof -
  have a: "set (ascending S) = S \<and> distinct (ascending S)" if "finite S" for S
    using that by (simp add: ascending_def)
  have d: "set (descending S) = S \<and> distinct (descending S)" if "finite S" for S
    using that by (simp add: descending_def)
  from render_mermaid_st_deterministic [of ascending descending, OF a d] show ?thesis
    by blast
qed

subsection \<open>C9\<close>

text \<open>
  Claim C9, as stated: for a graph with no top-level entries the output holds only the
  \<^verbatim>\<open>flowchart TD\<close> line and the \<^verbatim>\<open>classDef\<close> line and no other line. The code writes
  the indentation in front of each of the two joined blocks whether or not the block is
  empty, so the output of the empty graph is not the two lines alone.
\<close>

theorem render_mermaid_empty_counterexample:
  "render_mermaid (PackageDAG []) \<noteq>
     ''flowchart TD'' @ NL @ ''    classDef missing stroke-dasharray: 5'' @ NL"
  by (simp add: render_mermaid_def emit_def init_state_def indent_eq NL_def)

text \<open>
  Claim C9, amended: for a graph with no top-level entries, forward or reversed, the
  output is the \<^verbatim>\<open>flowchart TD\<close> line, the \<^verbatim>\<open>classDef\<close> line and two lines that hold the
  four blanks of the indentation and nothing else; it has no node declaration and no
  edge declaration.
\<close>

theorem render_mermaid_empty:
  "render_mermaid (PackageDAG []) =
     ''flowchart TD'' @ NL @ ''    classDef missing stroke-dasharray: 5'' @ NL @
     ''    '' @ NL @ ''    '' @ NL
   \<and> render_mermaid (ReversedPackageDAG []) =
     ''flowchart TD'' @ NL @ ''    classDef missing stroke-dasharray: 5'' @ NL @
     ''    '' @ NL @ ''    '' @ NL
   \<and> nodes (collect (PackageDAG [])) = {} \<and> edges (collect (PackageDAG [])) = {}
   \<and> nodes (collect (ReversedPackageDAG [])) = {} \<and> edges (collect (ReversedPackageDAG [])) = {}"
  by (simp add: render_mermaid_def emit_def init_state_def indent_eq NL_def)

subsection \<open>C10\<close>



end
